theory Spec2Isabelle
  imports Main "HOL-Library.Sublist" "HOL-Library.AList"
begin

section \<open>Shared data\<close>

text \<open>
  JavaScript values that cross the boundaries of the modelled code (tool inputs, tool
  results) are JSON values. Strings are byte strings; a character outside ASCII is its
  UTF-8 bytes.
\<close>

datatype json =
    JNull
  | JBool bool
  | JNum int
  | JStr string
  | JArr "json list"
  | JObj "(string \<times> json) list"

text \<open>\<open>String(n)\<close> of a non-negative integer: its decimal digits.\<close>

definition digit_char :: "nat \<Rightarrow> char" where
  "digit_char d = ''0123456789'' ! (d mod 10)"

fun show_nat :: "nat \<Rightarrow> string" where
  "show_nat n =
     (if n < 10 then [digit_char n]
      else show_nat (n div 10) @ [digit_char (n mod 10)])"

declare show_nat.simps [simp del]

definition show_int :: "int \<Rightarrow> string" where
  "show_int i = (if i < 0 then CHR ''-'' # show_nat (nat (- i)) else show_nat (nat i))"

section \<open>Turn controller: \<open>server/providers/antigravity-provider.js\<close>\<close>

subsection \<open>Conversation history\<close>

datatype role = User | Assistant

text \<open>
  A content block of a message: the \<open>{type: 'text', text}\<close> and
  \<open>{type: 'tool_use', id, name, input}\<close> entries of \<open>assistantContent\<close>, and the
  \<open>{type: 'tool_result', tool_use_id, content}\<close> entries of \<open>toolResults\<close>.
\<close>

datatype block =
    TextBlock string
  | ToolUseBlock string string json
  | ToolResultBlock string string

datatype content = Plain string | Blocks "block list"

record message =
  role :: role
  content :: content

type_synonym history_map = "string \<rightharpoonup> message list"

text \<open>
  \<open>getConversationHistory\<close> creates the empty history of an unknown chat and returns the
  chat's array; the model returns the list together with the updated map.
\<close>

definition getConversationHistory :: "history_map \<Rightarrow> string \<Rightarrow> message list \<times> history_map" where
  "getConversationHistory hm chatId =
     (case hm chatId of
        None \<Rightarrow> ([], hm(chatId \<mapsto> []))
      | Some h \<Rightarrow> (h, hm))"

text \<open>
  \<open>history.push(message); if (history.length > 100) history.splice(0, history.length - 80)\<close>
  on one history array.
\<close>

definition push_trim :: "message list \<Rightarrow> message \<Rightarrow> message list" where
  "push_trim history m =
     (let h = history @ [m]
      in if length h > 100 then drop (length h - 80) h else h)"

definition addToHistory :: "history_map \<Rightarrow> string \<Rightarrow> message \<Rightarrow> history_map" where
  "addToHistory hm chatId m =
     (case getConversationHistory hm chatId of
        (h, hm') \<Rightarrow> hm'(chatId \<mapsto> push_trim h m))"

subsection \<open>The provider's event stream and its decoder (\<open>processStream\<close>)\<close>

text \<open>
  \<open>processStream\<close> splits the body into lines and skips every line that does not start
  with \<open>data: \<close>, the \<open>[DONE]\<close> line and every line whose JSON does not parse, without
  touching its state. The model therefore reads the sequence of the parsed events.
  An event of another type, or one whose \<open>content_block\<close> or \<open>delta\<close> is of another
  type, changes nothing either: \<open>OtherBlock\<close>, \<open>OtherDelta\<close>, \<open>OtherEvent\<close>.
\<close>

datatype sse_block = ToolUseStart string string | OtherBlock

datatype sse_delta =
    TextDelta string
  | ThinkingDelta string
  | InputJsonDelta string
  | OtherDelta

datatype sse_event =
    ContentBlockStart sse_block
  | ContentBlockDelta sse_delta
  | ContentBlockStop
  | MessageDelta "string option"
  | OtherEvent

record tool_call =
  tc_id :: string
  tc_name :: string
  tc_input :: json

text \<open>The events the generator \<open>query\<close> yields. Every one carries
  \<open>provider: this.name\<close>, the constant \<open>'antigravity'\<close>, which the model leaves out.\<close>

datatype event =
    SessionInit string
  | Text string
  | Thinking string
  | ToolUse string json string
  | ToolResult json string string
  | Error string
  | Done

record decoder =
  textChunks :: "event list"
  toolCalls :: "tool_call list"
  assistantContent :: "block list"
  thinking :: string
  stopReason :: "string option"
  currentToolCall :: "(string \<times> string) option"
  currentToolInput :: string

definition decoder_init :: decoder where
  "decoder_init =
     \<lparr> textChunks = [], toolCalls = [], assistantContent = [], thinking = [],
       stopReason = None, currentToolCall = None, currentToolInput = [] \<rparr>"

text \<open>
  \<open>JSON.parse(currentToolInput || '{}')\<close> with the \<open>catch\<close> that substitutes \<open>{}\<close>.
  \<open>JSON.parse\<close> is the runtime's, a parameter here; \<open>JSON.parse('{}')\<close> is the empty
  object.
\<close>

definition parse_tool_input :: "(string \<Rightarrow> json option) \<Rightarrow> string \<Rightarrow> json" where
  "parse_tool_input json_parse buf =
     (if buf = [] then JObj []
      else case json_parse buf of Some v \<Rightarrow> v | None \<Rightarrow> JObj [])"

fun decode_event :: "(string \<Rightarrow> json option) \<Rightarrow> decoder \<Rightarrow> sse_event \<Rightarrow> decoder" where
  "decode_event jp d (ContentBlockStart (ToolUseStart i n)) =
     d\<lparr> currentToolCall := Some (i, n), currentToolInput := [] \<rparr>"
| "decode_event jp d (ContentBlockStart OtherBlock) = d"
| "decode_event jp d (ContentBlockDelta (TextDelta t)) =
     (if t \<noteq> [] then
        d\<lparr> textChunks := textChunks d @ [Text t],
           assistantContent := assistantContent d @ [TextBlock t] \<rparr>
      else d)"
| "decode_event jp d (ContentBlockDelta (ThinkingDelta t)) =
     (if t \<noteq> [] then d\<lparr> thinking := thinking d @ t \<rparr> else d)"
| "decode_event jp d (ContentBlockDelta (InputJsonDelta t)) =
     (if t \<noteq> [] then d\<lparr> currentToolInput := currentToolInput d @ t \<rparr> else d)"
| "decode_event jp d (ContentBlockDelta OtherDelta) = d"
| "decode_event jp d ContentBlockStop =
     (case currentToolCall d of
        None \<Rightarrow> d
      | Some (i, n) \<Rightarrow>
          (let inp = parse_tool_input jp (currentToolInput d)
           in d\<lparr> toolCalls := toolCalls d @ [\<lparr> tc_id = i, tc_name = n, tc_input = inp \<rparr>],
                 assistantContent := assistantContent d @ [ToolUseBlock i n inp],
                 currentToolCall := None,
                 currentToolInput := [] \<rparr>))"
| "decode_event jp d (MessageDelta r) =
     (case r of
        None \<Rightarrow> d
      | Some s \<Rightarrow> if s \<noteq> [] then d\<lparr> stopReason := Some s \<rparr> else d)"
| "decode_event jp d OtherEvent = d"

definition processStream :: "(string \<Rightarrow> json option) \<Rightarrow> sse_event list \<Rightarrow> decoder" where
  "processStream jp evs = foldl (decode_event jp) decoder_init evs"

subsection \<open>The agentic loop (\<open>query\<close>)\<close>

text \<open>
  What one \<open>makeStreamingRequest\<close> and the reading of its body come to:
  \<^item> \<open>FetchThrows m\<close>: \<open>fetch\<close> rejects with message \<open>m\<close>;
  \<^item> \<open>HttpNotOk status body\<close>: \<open>response.ok\<close> is false; \<open>body\<close> is \<open>Inr\<close> the text of
    the body or \<open>Inl\<close> the message of the error \<open>response.text()\<close> throws;
  \<^item> \<open>Stream evs err\<close>: the body carries the events \<open>evs\<close>; with \<open>err = Some m\<close> the
    reader throws \<open>m\<close> after them (the connection drops), and so does \<open>processStream\<close>.
\<close>

datatype turn_response =
    FetchThrows string
  | HttpNotOk nat "string + string"
  | Stream "sse_event list" "string option"

text \<open>
  The collaborators of the loop: the proxy (asked with the turn number and the messages
  of the request), the runtime's \<open>JSON.parse\<close> and \<open>JSON.stringify\<close>, and the tool
  module's \<open>executeTool\<close> and \<open>setSessionId\<close> over the tool module's state \<open>'ts\<close>.
  \<open>executeTool\<close> catches every exception of a handler and returns a value.
\<close>

record 'ts env =
  fetch :: "nat \<Rightarrow> message list \<Rightarrow> turn_response"
  json_parse :: "string \<Rightarrow> json option"
  json_stringify :: "json \<Rightarrow> string"
  executeTool :: "string \<Rightarrow> json \<Rightarrow> 'ts \<Rightarrow> json \<times> 'ts"
  setSessionId :: "string \<Rightarrow> 'ts \<Rightarrow> 'ts"

text \<open>The mutable state a run works on: the provider's \<open>this.conversationHistory\<close>,
  the tool module's state and the events yielded so far. \<open>this.maxTurns\<close> is set by the
  constructor and only read afterwards: the functions below take it as \<open>maxTurns\<close>.\<close>

record 'ts agent =
  conversationHistory :: history_map
  tools :: "'ts"
  emitted :: "event list"

text \<open>\<open>this.maxTurns = config.maxTurns || 50\<close>: an absent or zero setting gives 50.\<close>

definition config_maxTurns :: "nat option \<Rightarrow> nat" where
  "config_maxTurns c = (case c of None \<Rightarrow> 50 | Some n \<Rightarrow> if n = 0 then 50 else n)"

definition yield :: "event list \<Rightarrow> 'ts agent \<Rightarrow> 'ts agent" where
  "yield evs a = a\<lparr> emitted := emitted a @ evs \<rparr>"

text \<open>
  The \<open>for (const toolCall of result.toolCalls)\<close> loop: yields \<open>tool_use\<close>, awaits
  \<open>executeTool\<close>, yields \<open>tool_result\<close>, pushes the result block. It returns the events,
  the \<open>toolResults\<close> array and the tool module's state.
\<close>

fun dispatch_tools ::
  "'ts env \<Rightarrow> tool_call list \<Rightarrow> 'ts \<Rightarrow> event list \<times> block list \<times> 'ts" where
  "dispatch_tools E [] ts = ([], [], ts)"
| "dispatch_tools E (c # cs) ts =
     (case executeTool E (tc_name c) (tc_input c) ts of
        (toolResult, ts') \<Rightarrow>
          (case dispatch_tools E cs ts' of
             (evs, results, ts'') \<Rightarrow>
               (ToolUse (tc_name c) (tc_input c) (tc_id c)
                  # ToolResult toolResult (tc_id c) (tc_name c) # evs,
                ToolResultBlock (tc_id c) (json_stringify E toolResult) # results,
                ts'')))"

text \<open>How one pass through the body of the \<open>while\<close> ends: \<open>break\<close>, or the end of the
  body with the value of \<open>continueLoop\<close>.\<close>

datatype turn_end = Break | Next bool

definition run_turn :: "'ts env \<Rightarrow> string \<Rightarrow> nat \<Rightarrow> 'ts agent \<Rightarrow> turn_end \<times> 'ts agent" where
  "run_turn E chatId turn a =
     (case getConversationHistory (conversationHistory a) chatId of
        (messages, hm) \<Rightarrow>
          (let a0 = a\<lparr> conversationHistory := hm \<rparr>
           in case fetch E turn messages of
                FetchThrows m \<Rightarrow> (Break, yield [Error m] a0)
              | HttpNotOk status body \<Rightarrow>
                  (case body of
                     Inl m \<Rightarrow> (Break, yield [Error m] a0)
                   | Inr _ \<Rightarrow> (Break, yield [Error (''API error: '' @ show_nat status)] a0))
              | Stream evs (Some m) \<Rightarrow> (Break, yield [Error m] a0)
              | Stream evs None \<Rightarrow>
                  (let result = processStream (json_parse E) evs;
                       a1 = yield (textChunks result) a0;
                       a2 = (if thinking result \<noteq> [] then yield [Thinking (thinking result)] a1
                             else a1)
                   in if toolCalls result \<noteq> [] then
                        (case dispatch_tools E (toolCalls result) (tools a2) of
                           (evs', toolResults, ts') \<Rightarrow>
                             (let a3 = (yield evs' a2)\<lparr> tools := ts' \<rparr>;
                                  h1 = addToHistory (conversationHistory a3) chatId
                                         \<lparr> role = Assistant,
                                           content = Blocks (assistantContent result) \<rparr>;
                                  h2 = addToHistory h1 chatId
                                         \<lparr> role = User, content = Blocks toolResults \<rparr>
                              in (Next True, a3\<lparr> conversationHistory := h2 \<rparr>)))
                      else
                        (let h1 = (if assistantContent result \<noteq> [] then
                                     addToHistory (conversationHistory a2) chatId
                                       \<lparr> role = Assistant,
                                         content = Blocks (assistantContent result) \<rparr>
                                   else conversationHistory a2)
                         in (Next False, a2\<lparr> conversationHistory := h1 \<rparr>)))))"

text \<open>
  \<open>while (continueLoop && turn < this.maxTurns) { turn++; ... }\<close>, entered with
  \<open>continueLoop\<close> true; it returns the final value of \<open>turn\<close>.
\<close>

function turn_loop ::
  "'ts env \<Rightarrow> nat \<Rightarrow> string \<Rightarrow> nat \<Rightarrow> 'ts agent \<Rightarrow> nat \<times> 'ts agent" where
  "turn_loop E maxTurns chatId turn a =
     (if turn < maxTurns then
        (case run_turn E chatId (Suc turn) a of
           (Break, a') \<Rightarrow> (Suc turn, a')
         | (Next False, a') \<Rightarrow> (Suc turn, a')
         | (Next True, a') \<Rightarrow> turn_loop E maxTurns chatId (Suc turn) a')
      else (turn, a))"
  by pat_completeness auto
termination
  by (relation "measure (\<lambda>(E, maxTurns, chatId, turn, a). maxTurns - turn)") auto

declare turn_loop.simps [simp del]

definition max_turns_notice :: event where
  "max_turns_notice = Text (CHR 0x0A # CHR 0x0A # ''[Reached maximum turns]'')"

text \<open>\<open>query({prompt, chatId, model})\<close>, drained by its consumer. It returns the number
  of turns it logs at the end and the provider's final state.\<close>

definition query ::
  "'ts env \<Rightarrow> nat \<Rightarrow> string \<Rightarrow> string \<Rightarrow> 'ts agent \<Rightarrow> nat \<times> 'ts agent" where
  "query E maxTurns prompt chatId a =
     (let a1 = a\<lparr> tools := setSessionId E chatId (tools a),
                  conversationHistory :=
                    addToHistory (conversationHistory a) chatId
                      \<lparr> role = User, content = Plain prompt \<rparr>,
                  emitted := [] \<rparr>;
          a2 = yield [SessionInit chatId] a1
      in case turn_loop E maxTurns chatId 0 a2 of
           (turn, a3) \<Rightarrow>
             (let a4 = (if turn \<ge> maxTurns then yield [max_turns_notice] a3 else a3)
              in (turn, yield [Done] a4)))"

subsection \<open>Notions for stating the properties of the loop\<close>

text \<open>
  \<open>is_turn_output\<close>: the events a turn yields before it ends (\<open>text\<close>, \<open>thinking\<close>,
  \<open>tool_use\<close>, \<open>tool_result\<close>). \<open>tool_use_ids\<close> and \<open>tool_result_ids\<close> read the
  correlation ids off an event stream, in order. \<open>paired\<close> holds of a stream in which every
  \<open>tool_use\<close> is followed at once by a \<open>tool_result\<close> of the same id and name, and no
  \<open>tool_result\<close> stands anywhere else.
\<close>

fun is_turn_output :: "event \<Rightarrow> bool" where
  "is_turn_output (Text t) = True"
| "is_turn_output (Thinking t) = True"
| "is_turn_output (ToolUse n i c) = True"
| "is_turn_output (ToolResult r c n) = True"
| "is_turn_output e = False"

fun tool_use_ids :: "event list \<Rightarrow> string list" where
  "tool_use_ids [] = []"
| "tool_use_ids (ToolUse n i c # es) = c # tool_use_ids es"
| "tool_use_ids (e # es) = tool_use_ids es"

fun tool_result_ids :: "event list \<Rightarrow> string list" where
  "tool_result_ids [] = []"
| "tool_result_ids (ToolResult r c n # es) = c # tool_result_ids es"
| "tool_result_ids (e # es) = tool_result_ids es"

fun paired :: "event list \<Rightarrow> bool" where
  "paired [] = True"
| "paired (ToolUse n i c # ToolResult r c' n' # es) = (c = c' \<and> n = n' \<and> paired es)"
| "paired (ToolUse n i c # es) = False"
| "paired (ToolResult r c n # es) = False"
| "paired (e # es) = paired es"

definition calls_tools :: "'ts env \<Rightarrow> nat \<Rightarrow> message list \<Rightarrow> bool" where
  "calls_tools E turn messages =
     (case fetch E turn messages of
        Stream evs None \<Rightarrow> toolCalls (processStream (json_parse E) evs) \<noteq> []
      | _ \<Rightarrow> False)"


text \<open>
  \<open>turn_events\<close>: the events one pass through the loop body adds to the stream;
  \<open>decoded_calls\<close>: the tool calls \<open>processStream\<close> decodes in that pass (none when the
  request fails). \<open>calls_tools\<close>: the proxy answers this request with a stream that
  decodes to at least one tool call.
\<close>

definition turn_events :: "'ts env \<Rightarrow> string \<Rightarrow> nat \<Rightarrow> 'ts agent \<Rightarrow> event list" where
  "turn_events E chatId turn a = drop (length (emitted a)) (emitted (snd (run_turn E chatId turn a)))"

definition decoded_calls :: "'ts env \<Rightarrow> string \<Rightarrow> nat \<Rightarrow> 'ts agent \<Rightarrow> tool_call list" where
  "decoded_calls E chatId turn a =
     (case fetch E turn (fst (getConversationHistory (conversationHistory a) chatId)) of
        Stream evs None \<Rightarrow> toolCalls (processStream (json_parse E) evs)
      | _ \<Rightarrow> [])"

text \<open>
  Concrete collaborators for evaluating the loop: an agent with no history; a proxy that
  answers every request with status 500; a proxy that answers every request with one
  \<open>Bash\<close> tool call whose JSON is cut short, over a tool module that fails every call.
\<close>

definition agent0 :: "unit agent" where
  "agent0 = \<lparr> conversationHistory = Map.empty, tools = (), emitted = [] \<rparr>"

definition api_down_env :: "unit env" where
  "api_down_env =
     \<lparr> fetch = (\<lambda>turn messages. HttpNotOk 500 (Inr [])),
       json_parse = (\<lambda>s. None),
       json_stringify = (\<lambda>j. []),
       executeTool = (\<lambda>name input ts. (JObj [(''error'', JStr ''failed'')], ts)),
       setSessionId = (\<lambda>s ts. ts) \<rparr>"

definition tool_loop_env :: "unit env" where
  "tool_loop_env =
     \<lparr> fetch = (\<lambda>turn messages.
         Stream [ContentBlockStart (ToolUseStart (''t'' @ show_nat turn) ''Bash''),
                 ContentBlockDelta (InputJsonDelta ''{''), ContentBlockStop,
                 MessageDelta (Some ''tool_use'')] None),
       json_parse = (\<lambda>s. None),
       json_stringify = (\<lambda>j. []),
       executeTool = (\<lambda>name input ts. (JObj [(''error'', JStr ''failed'')], ts)),
       setSessionId = (\<lambda>s ts. ts) \<rparr>"

text \<open>
  For the history: the ids of the tool-use blocks and of the tool-result blocks a message
  carries, and the tool results of a history whose tool-use block is in no message of
  that history.
\<close>

fun block_tool_use_ids :: "block list \<Rightarrow> string list" where
  "block_tool_use_ids [] = []"
| "block_tool_use_ids (ToolUseBlock i n inp # bs) = i # block_tool_use_ids bs"
| "block_tool_use_ids (b # bs) = block_tool_use_ids bs"

fun block_tool_result_ids :: "block list \<Rightarrow> string list" where
  "block_tool_result_ids [] = []"
| "block_tool_result_ids (ToolResultBlock i c # bs) = i # block_tool_result_ids bs"
| "block_tool_result_ids (b # bs) = block_tool_result_ids bs"

definition message_blocks :: "message \<Rightarrow> block list" where
  "message_blocks m = (case content m of Plain t \<Rightarrow> [] | Blocks bs \<Rightarrow> bs)"

definition orphan_results :: "message list \<Rightarrow> string list" where
  "orphan_results h =
     filter (\<lambda>i. i \<notin> set (concat (map (block_tool_use_ids \<circ> message_blocks) h)))
       (concat (map (block_tool_result_ids \<circ> message_blocks) h))"

section \<open>The host\<close>

text \<open>
  Both path-checking modules lean on the runtime: Node's \<open>path\<close> module
  (\<open>normalize\<close>, \<open>join\<close>, \<open>extname\<close>, which differ between platforms), the home
  directory \<open>process.env.USERPROFILE || process.env.HOME || ''\<close>, and
  \<open>String.prototype.toLowerCase\<close>, which lowers every cased letter of Unicode. They are
  parameters of the model.
\<close>

record host =
  path_normalize :: "string \<Rightarrow> string"
  path_join :: "string \<Rightarrow> string \<Rightarrow> string"
  path_extname :: "string \<Rightarrow> string"
  userHome :: string
  toLowerCase :: "string \<Rightarrow> string"

text \<open>\<open>includes\<close> and \<open>startsWith\<close> of strings.\<close>

fun str_includes :: "string \<Rightarrow> string \<Rightarrow> bool" where
  "str_includes [] sub = (sub = [])"
| "str_includes (c # s) sub = (prefix sub (c # s) \<or> str_includes s sub)"

definition startsWith :: "string \<Rightarrow> string \<Rightarrow> bool" where
  "startsWith s pre = prefix pre s"

text \<open>A JavaScript \<open>Set\<close> of strings, in insertion order: \<open>add\<close> of a member changes
  nothing.\<close>

definition set_add :: "string \<Rightarrow> string list \<Rightarrow> string list" where
  "set_add x xs = (if x \<in> set xs then xs else xs @ [x])"

subsection \<open>A POSIX host for the examples\<close>

text \<open>
  \<open>path.posix\<close> of Node, used where a property is evaluated on concrete paths, with
  \<open>toLowerCase\<close> on ASCII strings, where it lowers the letters \<open>A\<close> to \<open>Z\<close>.
  \<open>normalize\<close> drops empty and \<open>.\<close> segments, resolves \<open>..\<close> against the segment before
  it and keeps a trailing slash; \<open>join\<close> normalizes the non-empty arguments joined by
  \<open>/\<close>; \<open>extname\<close> is the part of the last segment from its last dot, empty when that
  dot leads the segment.
\<close>

definition to_lower_char :: "char \<Rightarrow> char" where
  "to_lower_char c =
     (case map_of (zip ''ABCDEFGHIJKLMNOPQRSTUVWXYZ'' ''abcdefghijklmnopqrstuvwxyz'') c of
        Some l \<Rightarrow> l
      | None \<Rightarrow> c)"

definition ascii_toLowerCase :: "string \<Rightarrow> string" where
  "ascii_toLowerCase s = map to_lower_char s"

fun split_on :: "char \<Rightarrow> string \<Rightarrow> string list" where
  "split_on c [] = [[]]"
| "split_on c (x # xs) =
     (if x = c then [] # split_on c xs
      else (case split_on c xs of
              [] \<Rightarrow> [[x]]
            | s # ss \<Rightarrow> (x # s) # ss))"

fun normalize_segments :: "bool \<Rightarrow> string list \<Rightarrow> string list \<Rightarrow> string list" where
  "normalize_segments up res [] = res"
| "normalize_segments up res (seg # segs) =
     (if seg = [] \<or> seg = ''.'' then normalize_segments up res segs
      else if seg = ''..'' then
        (if res \<noteq> [] \<and> last res \<noteq> ''..'' then normalize_segments up (butlast res) segs
         else if up then normalize_segments up (res @ [''..'']) segs
         else normalize_segments up res segs)
      else normalize_segments up (res @ [seg]) segs)"

fun join_with :: "char \<Rightarrow> string list \<Rightarrow> string" where
  "join_with c [] = []"
| "join_with c [s] = s"
| "join_with c (s # ss) = s @ c # join_with c ss"

definition posix_normalize :: "string \<Rightarrow> string" where
  "posix_normalize p =
     (if p = [] then ''.''
      else
        (let isAbsolute = (hd p = CHR ''/'');
             trailing = (last p = CHR ''/'');
             q = join_with CHR ''/'' (normalize_segments (\<not> isAbsolute) [] (split_on CHR ''/'' p))
         in if q = [] then (if isAbsolute then ''/'' else if trailing then ''./'' else ''.'')
            else (let q' = (if trailing then q @ ''/'' else q)
                  in if isAbsolute then CHR ''/'' # q' else q')))"

definition posix_join :: "string \<Rightarrow> string \<Rightarrow> string" where
  "posix_join a b =
     (let parts = filter (\<lambda>s. s \<noteq> []) [a, b]
      in if parts = [] then ''.'' else posix_normalize (join_with CHR ''/'' parts))"

definition posix_extname :: "string \<Rightarrow> string" where
  "posix_extname p =
     (let segs = filter (\<lambda>s. s \<noteq> []) (split_on CHR ''/'' p);
          base = (if segs = [] then [] else last segs);
          stem = rev (dropWhile (\<lambda>c. c \<noteq> CHR ''.'') (rev base))
      in if stem = [] \<or> stem = ''.'' \<or> base = ''..'' then []
         else CHR ''.'' # drop (length stem) base)"

definition posix_host :: host where
  "posix_host =
     \<lparr> path_normalize = posix_normalize, path_join = posix_join,
       path_extname = posix_extname, userHome = ''/home/u'',
       toLowerCase = ascii_toLowerCase \<rparr>"

section \<open>Capability gate: the \<open>Sandbox\<close> class (\<open>src/server/providers/ollama.ts\<close>, from line 240)\<close>

definition DEFAULT_SENSITIVE_PATHS :: "string list" where
  "DEFAULT_SENSITIVE_PATHS =
     [''Downloads'', ''Documents'', ''Desktop'', ''Pictures'', ''Videos'', ''Music'',
      ''AppData'', ''Application Data'', ''.ssh'', ''.aws'', ''.config'', ''.gnupg'',
      ''.npmrc'', ''.netrc'', ''Program Files'', ''Program Files (x86)'', ''Windows'',
      ''System32'', ''/etc'', ''/var'', ''/usr'', ''/root'', ''/home'']"

definition ALWAYS_BLOCKED_PATHS :: "string list" where
  "ALWAYS_BLOCKED_PATHS =
     [''System32'', ''Windows'' @ [CHR 0x5C] @ ''System32'', ''/etc/passwd'', ''/etc/shadow'',
      ''/etc/sudoers'', ''.ssh/id_rsa'', ''.ssh/id_ed25519'', ''.gnupg/private-keys'']"

definition DANGEROUS_EXTENSIONS :: "string list" where
  "DANGEROUS_EXTENSIONS =
     [''.exe'', ''.bat'', ''.cmd'', ''.ps1'', ''.vbs'', ''.sh'', ''.bash'', ''.zsh'']"

datatype operation = OpRead | OpWrite | OpDelete | OpExecute

datatype perm_status = StatusPending | StatusApproved | StatusDenied

text \<open>A \<open>Permission\<close>. \<open>requestedAt\<close> and the audit timestamps are the clock's reading in
  milliseconds; the model reads the clock once per call, as the argument \<open>now\<close>.\<close>

record permission =
  perm_id :: string
  perm_sessionId :: string
  perm_operation :: operation
  perm_path :: string
  perm_reason :: string
  perm_status :: perm_status
  perm_requestedAt :: nat

datatype audit_action =
    ActAttempt | ActAllowed | ActBlocked | ActDenied | ActApproved | ActPermissionRequested

record audit_entry =
  au_sessionId :: string
  au_operation :: operation
  au_path :: string
  au_timestamp :: nat
  au_action :: audit_action
  au_reason :: "string option"
  au_permissionId :: "string option"

record sandbox_config =
  cfg_allowedPaths :: "string list"
  cfg_deniedPaths :: "string list"
  cfg_requireApproval :: bool
  cfg_sensitivePaths :: "string list"

text \<open>
  The fields of a \<open>Sandbox\<close>. \<open>pendingPermissions\<close> is a \<open>Map\<close> in insertion order, an
  association list whose \<open>set\<close> is \<open>AList.update\<close>; \<open>approvedPaths\<close> and \<open>deniedPaths\<close> map
  a session id to a \<open>Set\<close> of normalized paths.
\<close>

record sandbox =
  sb_config :: sandbox_config
  sb_pendingPermissions :: "(string \<times> permission) list"
  sb_approvedPaths :: "string \<rightharpoonup> string list"
  sb_deniedPaths :: "string \<rightharpoonup> string list"
  sb_auditLog :: "audit_entry list"

definition new_Sandbox :: sandbox where
  "new_Sandbox =
     \<lparr> sb_config =
         \<lparr> cfg_allowedPaths = [], cfg_deniedPaths = ALWAYS_BLOCKED_PATHS,
           cfg_requireApproval = True, cfg_sensitivePaths = DEFAULT_SENSITIVE_PATHS \<rparr>,
       sb_pendingPermissions = [],
       sb_approvedPaths = Map.empty,
       sb_deniedPaths = Map.empty,
       sb_auditLog = [] \<rparr>"

text \<open>\<open>path.normalize(targetPath).toLowerCase().replace(/\\/g, '/')\<close>\<close>

definition normalizePath :: "host \<Rightarrow> string \<Rightarrow> string" where
  "normalizePath H targetPath =
     map (\<lambda>c. if c = CHR 0x5C then CHR ''/'' else c) (toLowerCase H (path_normalize H targetPath))"

definition isBlocked :: "host \<Rightarrow> sandbox \<Rightarrow> string \<Rightarrow> bool" where
  "isBlocked H s targetPath =
     list_ex (\<lambda>blocked. str_includes (normalizePath H targetPath) (normalizePath H blocked))
       (cfg_deniedPaths (sb_config s))"

definition isSensitive :: "host \<Rightarrow> sandbox \<Rightarrow> string \<Rightarrow> bool" where
  "isSensitive H s targetPath =
     list_ex (\<lambda>sensitive.
         str_includes (normalizePath H targetPath) (normalizePath H sensitive) \<or>
         str_includes (normalizePath H targetPath)
           (normalizePath H (path_join H (userHome H) sensitive)))
       (cfg_sensitivePaths (sb_config s))"

definition isApproved :: "host \<Rightarrow> sandbox \<Rightarrow> string \<Rightarrow> string \<Rightarrow> bool" where
  "isApproved H s sessionId targetPath =
     (case sb_approvedPaths s sessionId of
        None \<Rightarrow> False
      | Some approved \<Rightarrow>
          list_ex (\<lambda>approvedPath. startsWith (normalizePath H targetPath) approvedPath) approved)"

definition isDenied :: "host \<Rightarrow> sandbox \<Rightarrow> string \<Rightarrow> string \<Rightarrow> bool" where
  "isDenied H s sessionId targetPath =
     (case sb_deniedPaths s sessionId of
        None \<Rightarrow> False
      | Some denied \<Rightarrow>
          list_ex (\<lambda>deniedPath. startsWith (normalizePath H targetPath) deniedPath) denied)"

definition isDangerousExtension :: "host \<Rightarrow> string \<Rightarrow> bool" where
  "isDangerousExtension H filePath =
     (toLowerCase H (path_extname H filePath) \<in> set DANGEROUS_EXTENSIONS)"

text \<open>\<open>logAudit\<close>: push, then keep the last 1000 entries.\<close>

definition logAudit :: "audit_entry \<Rightarrow> sandbox \<Rightarrow> sandbox" where
  "logAudit entry s =
     (let l = sb_auditLog s @ [entry]
      in s\<lparr> sb_auditLog := (if length l > 1000 then drop (length l - 1000) l else l) \<rparr>)"

record validate_params =
  vp_sessionId :: string
  vp_operation :: operation
  vp_path :: string
  vp_reason :: "string option"

text \<open>
  \<open>requestPermission\<close>. The id is
  \<open>perm_${Date.now()}_${Math.random().toString(36).slice(2, 8)}\<close>: the clock \<open>now\<close> and
  the random suffix \<open>rnd\<close> are arguments.
\<close>

definition requestPermission ::
  "nat \<Rightarrow> string \<Rightarrow> string \<Rightarrow> operation \<Rightarrow> string \<Rightarrow> string \<Rightarrow> sandbox
     \<Rightarrow> permission \<times> sandbox" where
  "requestPermission now rnd sessionId opn targetPath reason s =
     (let permission =
            \<lparr> perm_id = ''perm_'' @ show_nat now @ ''_'' @ rnd,
              perm_sessionId = sessionId, perm_operation = opn, perm_path = targetPath,
              perm_reason = reason, perm_status = StatusPending, perm_requestedAt = now \<rparr>;
          s1 = s\<lparr> sb_pendingPermissions :=
                    AList.update (perm_id permission) permission (sb_pendingPermissions s) \<rparr>
      in (permission,
          logAudit
            \<lparr> au_sessionId = sessionId, au_operation = opn, au_path = targetPath,
              au_timestamp = now, au_action = ActPermissionRequested, au_reason = None,
              au_permissionId = Some (perm_id permission) \<rparr> s1))"

text \<open>A \<open>ValidationResult\<close>; an absent optional field is \<open>None\<close>.\<close>

record validation_result =
  allowed :: bool
  vr_reason :: "string option"
  vr_blocked :: "bool option"
  vr_requiresPermission :: "bool option"
  vr_permission :: "permission option"

definition operation_name :: "operation \<Rightarrow> string" where
  "operation_name opn =
     (case opn of OpRead \<Rightarrow> ''read'' | OpWrite \<Rightarrow> ''write''
      | OpDelete \<Rightarrow> ''delete'' | OpExecute \<Rightarrow> ''execute'')"

definition validateOperation ::
  "host \<Rightarrow> nat \<Rightarrow> string \<Rightarrow> validate_params \<Rightarrow> sandbox \<Rightarrow> validation_result \<times> sandbox" where
  "validateOperation H now rnd params s =
     (let sessionId = vp_sessionId params; opn = vp_operation params;
          targetPath = vp_path params;
          entry = (\<lambda>action reason.
            \<lparr> au_sessionId = sessionId, au_operation = opn, au_path = targetPath,
              au_timestamp = now, au_action = action, au_reason = reason,
              au_permissionId = None \<rparr>);
          s0 = logAudit (entry ActAttempt None) s
      in if isBlocked H s0 targetPath then
           (\<lparr> allowed = False,
              vr_reason = Some ''This path is blocked for security reasons'',
              vr_blocked = Some True, vr_requiresPermission = None, vr_permission = None \<rparr>,
            logAudit (entry ActBlocked (Some ''Path is in blocked list'')) s0)
         else if isDenied H s0 sessionId targetPath then
           (\<lparr> allowed = False, vr_reason = Some ''Access was previously denied'',
              vr_blocked = Some False, vr_requiresPermission = None, vr_permission = None \<rparr>,
            s0)
         else if isApproved H s0 sessionId targetPath then
           (\<lparr> allowed = True, vr_reason = None, vr_blocked = None,
              vr_requiresPermission = None, vr_permission = None \<rparr>,
            logAudit (entry ActAllowed (Some ''Previously approved'')) s0)
         else if cfg_requireApproval (sb_config s0) \<and> isSensitive H s0 targetPath then
           (case requestPermission now rnd sessionId opn targetPath
                   (case vp_reason params of
                      Some r \<Rightarrow> if r \<noteq> [] then r
                                else operation_name opn @ '' operation on sensitive path''
                    | None \<Rightarrow> operation_name opn @ '' operation on sensitive path'') s0 of
              (permission, s1) \<Rightarrow>
                (\<lparr> allowed = False, vr_reason = None, vr_blocked = None,
                   vr_requiresPermission = Some True, vr_permission = Some permission \<rparr>,
                 s1))
         else if (opn = OpWrite \<or> opn = OpExecute) \<and> isDangerousExtension H targetPath then
           (case requestPermission now rnd sessionId opn targetPath
                   ''Creating/executing file with potentially dangerous extension'' s0 of
              (permission, s1) \<Rightarrow>
                (\<lparr> allowed = False, vr_reason = None, vr_blocked = None,
                   vr_requiresPermission = Some True, vr_permission = Some permission \<rparr>,
                 s1))
         else
           (\<lparr> allowed = True, vr_reason = None, vr_blocked = None,
              vr_requiresPermission = None, vr_permission = None \<rparr>,
            logAudit (entry ActAllowed None) s0))"

text \<open>\<open>permission.sessionId || 'default'\<close>\<close>

definition session_key :: "permission \<Rightarrow> string" where
  "session_key permission =
     (if perm_sessionId permission = [] then ''default'' else perm_sessionId permission)"

definition paths_of :: "(string \<rightharpoonup> string list) \<Rightarrow> string \<Rightarrow> string list" where
  "paths_of m sessionId = (case m sessionId of None \<Rightarrow> [] | Some l \<Rightarrow> l)"

text \<open>\<open>approvePermission\<close> and \<open>denyPermission\<close> return the permission with its new
  status, or \<open>null\<close> (\<open>None\<close>) when the id is not pending.\<close>

definition approvePermission ::
  "host \<Rightarrow> nat \<Rightarrow> string \<Rightarrow> sandbox \<Rightarrow> permission option \<times> sandbox" where
  "approvePermission H now permissionId s =
     (case map_of (sb_pendingPermissions s) permissionId of
        None \<Rightarrow> (None, s)
      | Some p \<Rightarrow>
          (let permission = p\<lparr> perm_status := StatusApproved \<rparr>;
               sessionId = session_key permission;
               s1 = s\<lparr> sb_pendingPermissions :=
                         AList.delete permissionId (sb_pendingPermissions s) \<rparr>;
               s2 = s1\<lparr> sb_approvedPaths :=
                          (sb_approvedPaths s1)(sessionId \<mapsto>
                             set_add (normalizePath H (perm_path permission))
                               (paths_of (sb_approvedPaths s1) sessionId)) \<rparr>
           in (Some permission,
               logAudit
                 \<lparr> au_sessionId = sessionId, au_operation = perm_operation permission,
                   au_path = perm_path permission, au_timestamp = now,
                   au_action = ActApproved, au_reason = None,
                   au_permissionId = Some permissionId \<rparr> s2)))"

definition denyPermission ::
  "host \<Rightarrow> nat \<Rightarrow> string \<Rightarrow> sandbox \<Rightarrow> permission option \<times> sandbox" where
  "denyPermission H now permissionId s =
     (case map_of (sb_pendingPermissions s) permissionId of
        None \<Rightarrow> (None, s)
      | Some p \<Rightarrow>
          (let permission = p\<lparr> perm_status := StatusDenied \<rparr>;
               sessionId = session_key permission;
               s1 = s\<lparr> sb_pendingPermissions :=
                         AList.delete permissionId (sb_pendingPermissions s) \<rparr>;
               s2 = s1\<lparr> sb_deniedPaths :=
                          (sb_deniedPaths s1)(sessionId \<mapsto>
                             set_add (normalizePath H (perm_path permission))
                               (paths_of (sb_deniedPaths s1) sessionId)) \<rparr>
           in (Some permission,
               logAudit
                 \<lparr> au_sessionId = sessionId, au_operation = perm_operation permission,
                   au_path = perm_path permission, au_timestamp = now,
                   au_action = ActDenied, au_reason = None,
                   au_permissionId = Some permissionId \<rparr> s2)))"

subsection \<open>Sequences of calls to the gate\<close>

text \<open>
  A call to the gate with the clock (and the random suffix) it meets, and the state a
  sequence of calls leaves. \<open>one_pending_per_path\<close> holds of a sequence in which every
  \<open>validateOperation\<close> carries a non-empty session id and no call leaves two pending
  permissions for the same session and normalized path.
\<close>

datatype gate_call =
    Validate nat string validate_params
  | Approve nat string
  | Deny nat string

fun gate_step :: "host \<Rightarrow> sandbox \<Rightarrow> gate_call \<Rightarrow> sandbox" where
  "gate_step H s (Validate now rnd params) = snd (validateOperation H now rnd params s)"
| "gate_step H s (Approve now permissionId) = snd (approvePermission H now permissionId s)"
| "gate_step H s (Deny now permissionId) = snd (denyPermission H now permissionId s)"

definition gate_run :: "host \<Rightarrow> sandbox \<Rightarrow> gate_call list \<Rightarrow> sandbox" where
  "gate_run H s calls = foldl (gate_step H) s calls"

definition pending_keys :: "host \<Rightarrow> sandbox \<Rightarrow> (string \<times> string) list" where
  "pending_keys H s =
     map (\<lambda>(i, p). (session_key p, normalizePath H (perm_path p))) (sb_pendingPermissions s)"

fun names_session :: "gate_call \<Rightarrow> bool" where
  "names_session (Validate now rnd params) = (vp_sessionId params \<noteq> [])"
| "names_session c = True"

fun one_pending_per_path :: "host \<Rightarrow> sandbox \<Rightarrow> gate_call list \<Rightarrow> bool" where
  "one_pending_per_path H s [] = True"
| "one_pending_per_path H s (c # cs) =
     (names_session c \<and> distinct (pending_keys H (gate_step H s c)) \<and>
      one_pending_per_path H (gate_step H s c) cs)"

text \<open>The request of the examples: session \<open>s1\<close> writes to a file under \<open>Documents\<close>.\<close>

definition doc_write :: validate_params where
  "doc_write =
     \<lparr> vp_sessionId = ''s1'', vp_operation = OpWrite,
       vp_path = ''/home/u/Documents/x.txt'', vp_reason = None \<rparr>"

text \<open>
  The invariant behind the disjointness of the two sets: they are disjoint in every
  session, and no pending permission of a named session is for a path that is already
  in the approved or the denied set of its session.
\<close>

definition gate_inv :: "host \<Rightarrow> sandbox \<Rightarrow> bool" where
  "gate_inv H s =
     ((\<forall>sid. set (paths_of (sb_approvedPaths s) sid) \<inter> set (paths_of (sb_deniedPaths s) sid) = {}) \<and>
      (\<forall>(i, p) \<in> set (sb_pendingPermissions s).
          perm_sessionId p \<noteq> [] \<and>
          normalizePath H (perm_path p) \<notin> set (paths_of (sb_approvedPaths s) (perm_sessionId p)) \<and>
          normalizePath H (perm_path p) \<notin> set (paths_of (sb_deniedPaths s) (perm_sessionId p))))"

text \<open>
  Two sequences of calls for the examples. In the first, session \<open>s1\<close> asks twice for the
  same file before anyone answers, and the two requests are then approved and denied. In
  the second every request is answered before the next is made: one path is approved,
  another denied.
\<close>

definition approve_then_deny :: "gate_call list" where
  "approve_then_deny =
     [Validate 1 ''aaaaaa'' doc_write, Validate 2 ''bbbbbb'' doc_write,
      Approve 3 ''perm_1_aaaaaa'', Deny 4 ''perm_2_bbbbbb'']"

definition approve_one_deny_other :: "gate_call list" where
  "approve_one_deny_other =
     [Validate 1 ''aaaaaa'' doc_write, Approve 2 ''perm_1_aaaaaa'',
      Validate 3 ''bbbbbb'' (doc_write\<lparr> vp_path := ''/home/u/Desktop'' \<rparr>),
      Deny 4 ''perm_3_bbbbbb'', Validate 5 ''cccccc'' doc_write]"

definition desktop_denied :: sandbox where
  "desktop_denied =
     gate_run posix_host new_Sandbox
       [Validate 1 ''aaaaaa'' (doc_write\<lparr> vp_path := ''/home/u/Desktop'' \<rparr>),
        Deny 2 ''perm_1_aaaaaa'']"

definition approve_elsewhere :: "gate_call list" where
  "approve_elsewhere = [Validate 3 ''bbbbbb'' doc_write, Approve 4 ''perm_3_bbbbbb'']"

text \<open>The sandbox after session \<open>s1\<close> has asked to write the file under \<open>Documents\<close>.\<close>

definition doc_pending :: sandbox where
  "doc_pending = snd (validateOperation posix_host 1 ''aaaaaa'' doc_write new_Sandbox)"

section \<open>Tool executor: \<open>tools/index.js\<close> (in \<open>src/README.md\<close>, from line 820)\<close>

text \<open>
  The model covers the handlers the claims are about: \<open>Read\<close>, \<open>Delete\<close>,
  \<open>ConfirmDelete\<close>, \<open>CancelDelete\<close>, \<open>ConfirmPermission\<close>, \<open>DenyPermission\<close> and \<open>Bash\<close>, with
  inputs of the types the tool definitions declare. A handler returns a JSON object or
  throws; \<open>executeTool\<close> turns a thrown error into \<open>{error: message}\<close>.
\<close>

definition SENSITIVE_PATHS :: "string list" where
  "SENSITIVE_PATHS =
     [''Downloads'', ''Documents'', ''Desktop'', ''Pictures'', ''Videos'', ''Music'',
      ''AppData'', ''Application Data'', ''.ssh'', ''.aws'', ''.config'', ''Program Files'',
      ''Windows'', ''System32'']"

subsection \<open>The file system and the shell\<close>

text \<open>
  The file system maps a path to a file with its content or to a directory (with the
  size \<open>stat\<close> reports for it). \<open>fs.unlink\<close> removes a file and fails on a missing path or
  a directory; \<open>fs.rm\<close> removes a file, removes a directory with everything below it when
  \<open>recursive\<close> is set, and fails on a missing path or on a directory without \<open>recursive\<close>.
  A failure is the message of the error thrown, in Node's wording.
\<close>

datatype node = File string | Dir nat

type_synonym filesystem = "string \<rightharpoonup> node"

definition stat_size :: "node \<Rightarrow> nat" where
  "stat_size n = (case n of File c \<Rightarrow> length c | Dir sz \<Rightarrow> sz)"

definition isDirectory :: "node \<Rightarrow> bool" where
  "isDirectory n = (case n of File c \<Rightarrow> False | Dir sz \<Rightarrow> True)"

definition enoent :: "string \<Rightarrow> string \<Rightarrow> string" where
  "enoent syscall p = ''ENOENT: no such file or directory, '' @ syscall @ '' '' @ [CHR 0x27] @ p @ [CHR 0x27]"

definition eisdir :: "string \<Rightarrow> string \<Rightarrow> string" where
  "eisdir syscall p =
     ''EISDIR: illegal operation on a directory, '' @ syscall @ '' '' @ [CHR 0x27] @ p @ [CHR 0x27]"

definition fs_readFile :: "filesystem \<Rightarrow> string \<Rightarrow> string + string" where
  "fs_readFile fs p =
     (case fs p of
        None \<Rightarrow> Inl (enoent ''open'' p)
      | Some (File c) \<Rightarrow> Inr c
      | Some (Dir sz) \<Rightarrow> Inl ''EISDIR: illegal operation on a directory, read'')"

definition fs_unlink :: "filesystem \<Rightarrow> string \<Rightarrow> string + filesystem" where
  "fs_unlink fs p =
     (case fs p of
        None \<Rightarrow> Inl (enoent ''unlink'' p)
      | Some (File c) \<Rightarrow> Inr (fs(p := None))
      | Some (Dir sz) \<Rightarrow> Inl (eisdir ''unlink'' p))"

definition below :: "string \<Rightarrow> string \<Rightarrow> bool" where
  "below dir p = (p = dir \<or> prefix (dir @ ''/'') p)"

definition fs_rm :: "filesystem \<Rightarrow> string \<Rightarrow> bool \<Rightarrow> string + filesystem" where
  "fs_rm fs p recursive =
     (case fs p of
        None \<Rightarrow> Inl (enoent ''lstat'' p)
      | Some (File c) \<Rightarrow> Inr (fs(p := None))
      | Some (Dir sz) \<Rightarrow>
          if recursive then Inr (\<lambda>q. if below p q then None else fs q)
          else Inl (''Path is a directory: rm returned EISDIR (is a directory) '' @ p))"

text \<open>
  What \<open>execAsync(command, options)\<close> comes to: the output of a command that exits with
  0, or the error of one that does not (its \<open>stdout\<close> and \<open>stderr\<close> if any, its message
  and its \<open>code\<close>).
\<close>

datatype exec_outcome =
    ExecOk string string
  | ExecError "string option" "string option" string json

text \<open>
  The host of the tool module: Node's \<open>path\<close> and the home directory, \<open>glob\<close> (the files
  below a directory, for \<open>glob('**/*', {cwd, nodir: true})\<close>), the shell behind
  \<open>execAsync\<close>, which gets the command, the timeout and the working directory and may
  change the file system, and \<open>process.cwd()\<close>.
\<close>

record tool_host =
  paths :: host
  glob_nodir :: "filesystem \<Rightarrow> string \<Rightarrow> string list"
  exec :: "string \<Rightarrow> int \<Rightarrow> string \<Rightarrow> filesystem \<Rightarrow> exec_outcome \<times> filesystem"
  process_cwd :: string

text \<open>What one call reads from the clock and the random number generator:
  \<open>Date.now()\<close>, \<open>Math.random().toString(36).slice(2, 8)\<close> and
  \<open>new Date().toISOString()\<close>.\<close>

record tick =
  now_ms :: nat
  random36 :: string
  iso_now :: string

subsection \<open>The module's state\<close>

record pending_deletion =
  pd_path :: string
  pd_recursive :: bool
  pd_reason :: string
  pd_isDirectory :: bool
  pd_size :: nat
  pd_fileCount :: nat
  pd_createdAt :: string
  pd_session :: string

record path_permission =
  pp_path :: string
  pp_operation :: string
  pp_reason :: string
  pp_sessionId :: string
  pp_requestedAt :: string

text \<open>The maps \<open>pendingDeletions\<close>, \<open>pendingPermissions\<close> and \<open>approvedPaths\<close>, the
  variable \<open>currentSessionId\<close>, and the file system the handlers act on.\<close>

record tool_module =
  tm_pendingDeletions :: "(string \<times> pending_deletion) list"
  tm_pendingPermissions :: "(string \<times> path_permission) list"
  tm_approvedPaths :: "string \<rightharpoonup> string list"
  tm_currentSessionId :: string
  tm_fs :: filesystem

subsection \<open>Path permissions\<close>

definition isSensitivePath :: "tool_host \<Rightarrow> string \<Rightarrow> bool" where
  "isSensitivePath TH targetPath =
     (let normalizedPath = toLowerCase (paths TH) (path_normalize (paths TH) targetPath)
      in list_ex (\<lambda>sensitive.
           str_includes normalizedPath (toLowerCase (paths TH) sensitive) \<or>
           str_includes normalizedPath
             (toLowerCase (paths TH) (path_join (paths TH) (userHome (paths TH)) sensitive)))
         SENSITIVE_PATHS)"

definition isPathApproved :: "tool_host \<Rightarrow> tool_module \<Rightarrow> string \<Rightarrow> string \<Rightarrow> bool" where
  "isPathApproved TH tm sessionId targetPath =
     (case tm_approvedPaths tm sessionId of
        None \<Rightarrow> False
      | Some approved \<Rightarrow>
          (let normalizedPath = toLowerCase (paths TH) (path_normalize (paths TH) targetPath)
           in list_ex (\<lambda>approvedPath. startsWith normalizedPath (toLowerCase (paths TH) approvedPath))
                approved))"

definition new_permission_id :: "tick \<Rightarrow> string" where
  "new_permission_id tk = ''perm_'' @ show_nat (now_ms tk) @ ''_'' @ random36 tk"

definition requires_permission :: "string \<Rightarrow> string \<Rightarrow> string \<Rightarrow> string \<Rightarrow> json" where
  "requires_permission permissionId targetPath opn reason =
     JObj [(''requires_permission'', JBool True),
           (''permission_id'', JStr permissionId),
           (''path'', JStr targetPath),
           (''operation'', JStr opn),
           (''message'',
              JStr (''Permission required to '' @ opn @ '' in sensitive location: '' @ targetPath)),
           (''reason'', JStr reason),
           (''instruction'',
              JStr (''User must approve this action. Use ConfirmPermission tool with this ''
                    @ ''permission_id after user approval.''))]"

definition requestPathPermission ::
  "tick \<Rightarrow> string \<Rightarrow> string \<Rightarrow> string \<Rightarrow> tool_module \<Rightarrow> json \<times> tool_module" where
  "requestPathPermission tk targetPath opn reason tm =
     (let permissionId = new_permission_id tk
      in (requires_permission permissionId targetPath opn reason,
          tm\<lparr> tm_pendingPermissions :=
                AList.update permissionId
                  \<lparr> pp_path = targetPath, pp_operation = opn, pp_reason = reason,
                    pp_sessionId = tm_currentSessionId tm, pp_requestedAt = iso_now tk \<rparr>
                  (tm_pendingPermissions tm) \<rparr>))"

definition confirmPermission :: "tool_host \<Rightarrow> string \<Rightarrow> tool_module \<Rightarrow> json \<times> tool_module" where
  "confirmPermission TH permissionId tm =
     (case map_of (tm_pendingPermissions tm) permissionId of
        None \<Rightarrow> (JObj [(''error'', JStr ''Permission request not found or expired'')], tm)
      | Some perm \<Rightarrow>
          (JObj [(''approved'', JBool True), (''path'', JStr (pp_path perm))],
           tm\<lparr> tm_approvedPaths :=
                 (tm_approvedPaths tm)(pp_sessionId perm \<mapsto>
                    set_add (path_normalize (paths TH) (pp_path perm))
                      (paths_of (tm_approvedPaths tm) (pp_sessionId perm))),
               tm_pendingPermissions :=
                 AList.delete permissionId (tm_pendingPermissions tm) \<rparr>))"

text \<open>\<open>denyPermission\<close> of the tool module (the \<open>Sandbox\<close> class has a method of the same
  name, above).\<close>

definition tool_denyPermission :: "string \<Rightarrow> tool_module \<Rightarrow> json \<times> tool_module" where
  "tool_denyPermission permissionId tm =
     (case map_of (tm_pendingPermissions tm) permissionId of
        None \<Rightarrow> (JObj [(''error'', JStr ''Permission request not found'')], tm)
      | Some perm \<Rightarrow>
          (JObj [(''denied'', JBool True), (''path'', JStr (pp_path perm))],
           tm\<lparr> tm_pendingPermissions :=
                 AList.delete permissionId (tm_pendingPermissions tm) \<rparr>))"

text \<open>The answers to a permission id that is not pending.\<close>

definition not_found :: json where
  "not_found = JObj [(''error'', JStr ''Permission request not found'')]"

definition not_found_or_expired :: json where
  "not_found_or_expired = JObj [(''error'', JStr ''Permission request not found or expired'')]"

subsection \<open>Handlers\<close>

text \<open>
  A handler returns \<open>Inr\<close> its result or \<open>Inl\<close> the message of the error it throws.
  \<open>Array.prototype.slice(0, n)\<close> counts a negative \<open>n\<close> from the end; \<open>padStart(5)\<close> pads
  with spaces on the left.
\<close>

definition slice_to :: "int \<Rightarrow> 'a list \<Rightarrow> 'a list" where
  "slice_to n xs = (if n < 0 then take (length xs - nat (- n)) xs else take (nat n) xs)"

definition padStart :: "nat \<Rightarrow> string \<Rightarrow> string" where
  "padStart n s = replicate (n - length s) CHR '' '' @ s"

definition number_line :: "int \<Rightarrow> nat \<Rightarrow> string \<Rightarrow> string" where
  "number_line startLine i line =
     padStart 5 (show_int (startLine + int i)) @ [CHR 0xE2, CHR 0x94, CHR 0x82] @ '' '' @ line"

definition executeRead ::
  "tool_host \<Rightarrow> tick \<Rightarrow> string \<Rightarrow> int option \<Rightarrow> int option \<Rightarrow> tool_module
     \<Rightarrow> (string + json) \<times> tool_module" where
  "executeRead TH tk file_path offset_opt limit tm =
     (let offset = (case offset_opt of None \<Rightarrow> 0 | Some n \<Rightarrow> n)
      in if isSensitivePath TH file_path \<and>
            \<not> isPathApproved TH tm (tm_currentSessionId tm) file_path then
           (case requestPathPermission tk file_path ''read''
                   ''Reading files from this location'' tm of
              (r, tm') \<Rightarrow> (Inr r, tm'))
         else
           (case fs_readFile (tm_fs tm) file_path of
              Inl err \<Rightarrow> (Inl err, tm)
            | Inr contents \<Rightarrow>
                (let lines = split_on (CHR 0x0A) contents;
                     result1 = (if offset > 0 then drop (nat (offset - 1)) lines else lines);
                     result2 = (case limit of
                                  None \<Rightarrow> result1
                                | Some l \<Rightarrow> if l \<noteq> 0 then slice_to l result1 else result1);
                     startLine = (if offset = 0 then 1 else offset);
                     numbered = join_with (CHR 0x0A)
                                  (map (\<lambda>(i, line). number_line startLine i line)
                                     (enumerate 0 result2))
                 in (Inr (JObj [(''content'', JStr numbered),
                                (''total_lines'', JNum (int (length lines)))]), tm))))"

definition new_deletion_id :: "tick \<Rightarrow> string" where
  "new_deletion_id tk = ''del_'' @ show_nat (now_ms tk) @ ''_'' @ random36 tk"

definition executeDelete ::
  "tool_host \<Rightarrow> tick \<Rightarrow> string \<Rightarrow> bool option \<Rightarrow> string option \<Rightarrow> tool_module
     \<Rightarrow> (string + json) \<times> tool_module" where
  "executeDelete TH tk targetPath recursive_opt reason_opt tm =
     (let recursive = (case recursive_opt of None \<Rightarrow> False | Some b \<Rightarrow> b);
          reason = (case reason_opt of None \<Rightarrow> ''No reason provided'' | Some r \<Rightarrow> r)
      in case tm_fs tm targetPath of
           None \<Rightarrow> (Inr (JObj [(''error'', JStr (''Path not found: '' @ targetPath))]), tm)
         | Some stat \<Rightarrow>
             (let deletionId = new_deletion_id tk;
                  fileCount = (if isDirectory stat
                               then length (glob_nodir TH (tm_fs tm) targetPath) else 1);
                  size = stat_size stat
              in (Inr (JObj [(''requires_approval'', JBool True),
                             (''deletion_id'', JStr deletionId),
                             (''path'', JStr targetPath),
                             (''type'', JStr (if isDirectory stat then ''directory'' else ''file'')),
                             (''file_count'', JNum (int fileCount)),
                             (''reason'', JStr reason),
                             (''message'',
                                JStr (''Deletion request created. User must approve deletion of ''
                                      @ targetPath @ ''. Use ConfirmDelete with deletion_id=''
                                      @ [CHR 0x22] @ deletionId @ [CHR 0x22]
                                      @ '' after user approval.''))]),
                  tm\<lparr> tm_pendingDeletions :=
                        AList.update deletionId
                          \<lparr> pd_path = targetPath, pd_recursive = recursive, pd_reason = reason,
                            pd_isDirectory = isDirectory stat, pd_size = size,
                            pd_fileCount = fileCount, pd_createdAt = iso_now tk,
                            pd_session = tm_currentSessionId tm \<rparr>
                          (tm_pendingDeletions tm) \<rparr>)))"

definition executeConfirmDelete ::
  "string \<Rightarrow> tool_module \<Rightarrow> (string + json) \<times> tool_module" where
  "executeConfirmDelete deletion_id tm =
     (case map_of (tm_pendingDeletions tm) deletion_id of
        None \<Rightarrow>
          (Inr (JObj [(''error'',
                  JStr (''No pending deletion found with id: '' @ deletion_id
                        @ ''. It may have expired or already been processed.''))]), tm)
      | Some pending \<Rightarrow>
          (case (if pd_isDirectory pending
                 then fs_rm (tm_fs tm) (pd_path pending) (pd_recursive pending)
                 else fs_unlink (tm_fs tm) (pd_path pending)) of
             Inl err \<Rightarrow> (Inr (JObj [(''error'', JStr (''Failed to delete: '' @ err))]), tm)
           | Inr fs' \<Rightarrow>
               (Inr (JObj [(''success'', JBool True),
                           (''path'', JStr (pd_path pending)),
                           (''message'', JStr (''Successfully deleted '' @ pd_path pending))]),
                tm\<lparr> tm_fs := fs',
                    tm_pendingDeletions :=
                      AList.delete deletion_id (tm_pendingDeletions tm) \<rparr>)))"

definition executeCancelDelete ::
  "string \<Rightarrow> tool_module \<Rightarrow> (string + json) \<times> tool_module" where
  "executeCancelDelete deletion_id tm =
     (case map_of (tm_pendingDeletions tm) deletion_id of
        None \<Rightarrow>
          (Inr (JObj [(''error'',
                  JStr (''No pending deletion found with id: '' @ deletion_id))]), tm)
      | Some pending \<Rightarrow>
          (Inr (JObj [(''success'', JBool True),
                      (''cancelled'', JBool True),
                      (''path'', JStr (pd_path pending)),
                      (''message'',
                         JStr (''Deletion of '' @ pd_path pending @ '' has been cancelled.''))]),
           tm\<lparr> tm_pendingDeletions :=
                 AList.delete deletion_id (tm_pendingDeletions tm) \<rparr>))"

definition dangerous :: "string list" where
  "dangerous = [''rm -rf /'', ''mkfs'', '':(){'', ''format c:'']"

definition executeBash ::
  "tool_host \<Rightarrow> string \<Rightarrow> int option \<Rightarrow> string option \<Rightarrow> tool_module
     \<Rightarrow> (string + json) \<times> tool_module" where
  "executeBash TH command timeout_opt cwd_opt tm =
     (let timeout = (case timeout_opt of None \<Rightarrow> 120000 | Some t \<Rightarrow> t);
          cwd = (case cwd_opt of
                   None \<Rightarrow> process_cwd TH
                 | Some d \<Rightarrow> if d \<noteq> [] then d else process_cwd TH)
      in if list_ex (\<lambda>d. str_includes (toLowerCase (paths TH) command) d) dangerous then
           (Inr (JObj [(''error'', JStr ''Blocked: dangerous command pattern detected'')]), tm)
         else
           (case exec TH command timeout cwd (tm_fs tm) of
              (ExecOk stdout stderr, fs') \<Rightarrow>
                (Inr (JObj [(''stdout'', JStr (take 30000 stdout)),
                            (''stderr'', JStr (take 5000 stderr)),
                            (''success'', JBool True)]),
                 tm\<lparr> tm_fs := fs' \<rparr>)
            | (ExecError stdout stderr message code, fs') \<Rightarrow>
                (Inr (JObj [(''stdout'',
                               JStr (case stdout of None \<Rightarrow> [] | Some out \<Rightarrow> take 30000 out)),
                            (''stderr'',
                               JStr (case stderr of
                                       None \<Rightarrow> message
                                     | Some err \<Rightarrow>
                                         if take 5000 err \<noteq> [] then take 5000 err else message)),
                            (''exit_code'', code),
                            (''success'', JBool False)]),
                 tm\<lparr> tm_fs := fs' \<rparr>)))"

subsection \<open>Dispatch\<close>

datatype tool_invocation =
    Read string "int option" "int option"
  | Delete string "bool option" "string option"
  | ConfirmDelete string
  | CancelDelete string
  | ConfirmPermission string
  | DenyPermission string
  | Bash string "int option" "string option"

text \<open>The cases of \<open>executeTool\<close>'s \<open>switch\<close> for the modelled tools, inside its
  \<open>try\<close>: a thrown error becomes \<open>{error: error.message}\<close>.\<close>

definition executeTool_local ::
  "tool_host \<Rightarrow> tick \<Rightarrow> tool_invocation \<Rightarrow> tool_module \<Rightarrow> json \<times> tool_module" where
  "executeTool_local TH tk call tm =
     (case (case call of
              Read file_path offset limit \<Rightarrow> executeRead TH tk file_path offset limit tm
            | Delete p recursive reason \<Rightarrow> executeDelete TH tk p recursive reason tm
            | ConfirmDelete i \<Rightarrow> executeConfirmDelete i tm
            | CancelDelete i \<Rightarrow> executeCancelDelete i tm
            | ConfirmPermission i \<Rightarrow>
                (case confirmPermission TH i tm of (r, tm') \<Rightarrow> (Inr r, tm'))
            | DenyPermission i \<Rightarrow>
                (case tool_denyPermission i tm of (r, tm') \<Rightarrow> (Inr r, tm'))
            | Bash command timeout cwd \<Rightarrow> executeBash TH command timeout cwd tm) of
        (Inr result, tm') \<Rightarrow> (result, tm')
      | (Inl message, tm') \<Rightarrow> (JObj [(''error'', JStr message)], tm'))"


subsection \<open>A host and a state for the examples\<close>

text \<open>
  The shell is outside the repository. \<open>rm_shell\<close> stands for it in the examples: it
  understands the one command \<open>rm <path>\<close>, which removes a regular file, and does nothing
  on any other command. \<open>tmp_module\<close> is the tool module of session \<open>s1\<close> with nothing
  pending, over a file system that holds the file \<open>/tmp/x\<close> and the file
  \<open>/home/u/Documents/x.txt\<close>.
\<close>

definition rm_shell ::
  "string \<Rightarrow> int \<Rightarrow> string \<Rightarrow> filesystem \<Rightarrow> exec_outcome \<times> filesystem" where
  "rm_shell command timeout cwd fs =
     (if prefix ''rm '' command then
        (case fs (drop 3 command) of
           Some (File c) \<Rightarrow> (ExecOk [] [], fs(drop 3 command := None))
         | _ \<Rightarrow> (ExecError (Some []) (Some ''rm: cannot remove'') ''Command failed'' (JNum 1), fs))
      else (ExecOk [] [], fs))"

definition posix_tool_host :: tool_host where
  "posix_tool_host =
     \<lparr> paths = posix_host, glob_nodir = (\<lambda>fs dir. []), exec = rm_shell,
       process_cwd = ''/srv/app'' \<rparr>"

definition tmp_module :: tool_module where
  "tmp_module =
     \<lparr> tm_pendingDeletions = [], tm_pendingPermissions = [], tm_approvedPaths = Map.empty,
       tm_currentSessionId = ''s1'',
       tm_fs = [''/tmp/x'' \<mapsto> File ''data'', ''/home/u/Documents/x.txt'' \<mapsto> File ''notes''] \<rparr>"

definition tick1 :: tick where
  "tick1 = \<lparr> now_ms = 1, random36 = ''aaaaaa'', iso_now = ''2026-01-01T00:00:00.001Z'' \<rparr>"

definition tick2 :: tick where
  "tick2 = \<lparr> now_ms = 2, random36 = ''bbbbbb'', iso_now = ''2026-01-01T00:00:00.002Z'' \<rparr>"


text \<open>The tool module after session \<open>s1\<close> has been asked for permission to read the
  file under \<open>Documents\<close>.\<close>

definition permission_requested :: tool_module where
  "permission_requested =
     snd (requestPathPermission tick1 ''/home/u/Documents/x.txt'' ''read''
            ''Reading files from this location'' tmp_module)"

section \<open>Remote command bridge: the WebSocket server of \<open>server.js\<close> (\<open>src/unnamed/part_001\<close>, lines 269-338)\<close>

text \<open>
  The module variables \<open>browserExtensionSocket\<close>, \<open>pendingRequests\<close> and
  \<open>requestIdCounter\<close>. The sockets are numbered. Every call of \<open>sendCommand\<close> makes one
  promise and at most one timer; the model numbers the calls and names a promise and its
  timer by the number of the call. An entry of \<open>pendingRequests\<close> holds the \<open>resolve\<close>,
  \<open>reject\<close> and \<open>timeout\<close> of one call: the model stores the call's number. Next to the
  variables stand what the runtime holds: the timers that are armed (each with the \<open>id\<close>
  and \<open>action\<close> its callback closes over), the calls of \<open>resolve\<close> and \<open>reject\<close> made so
  far, and what was written to the sockets.
\<close>

datatype outcome = Resolved json | Rejected string

datatype ws_out = Envelope nat string json | Registered

record bridge =
  browserExtensionSocket :: "nat option"
  pendingRequests :: "(nat \<times> nat) list"
  requestIdCounter :: nat
  timers :: "(nat \<times> nat \<times> string) list"
  settled :: "(nat \<times> outcome) list"
  sent :: "(nat \<times> ws_out) list"
  call_count :: nat

definition new_bridge :: bridge where
  "new_bridge =
     \<lparr> browserExtensionSocket = None, pendingRequests = [], requestIdCounter = 0,
       timers = [], settled = [], sent = [], call_count = 0 \<rparr>"

text \<open>\<open>++requestIdCounter\<close> on a JavaScript number: exact below \<open>2^53\<close>, where adding 1
  no longer changes the value.\<close>

definition js_increment :: "nat \<Rightarrow> nat" where
  "js_increment n = (if n < 2 ^ 53 then n + 1 else n)"

text \<open>
  \<open>sendCommand(action, params)\<close>; \<open>ready\<close> is what the call reads as
  \<open>browserExtensionSocket.readyState === 1\<close>. Without an open socket it throws, which
  rejects the promise of the call. Otherwise it takes the next id, arms the timer, stores
  the entry and writes the envelope.
\<close>

definition sendCommand :: "bool \<Rightarrow> string \<Rightarrow> json \<Rightarrow> bridge \<Rightarrow> bridge" where
  "sendCommand ready action params b =
     (case browserExtensionSocket b of
        None \<Rightarrow>
          b\<lparr> call_count := call_count b + 1,
             settled := settled b @ [(call_count b, Rejected ''Browser extension not connected'')] \<rparr>
      | Some ws \<Rightarrow>
          if \<not> ready then
            b\<lparr> call_count := call_count b + 1,
               settled := settled b @ [(call_count b, Rejected ''Browser extension not connected'')] \<rparr>
          else
            (let rid = js_increment (requestIdCounter b)
             in b\<lparr> requestIdCounter := rid,
                   call_count := call_count b + 1,
                   timers := timers b @ [(call_count b, rid, action)],
                   pendingRequests := AList.update rid (call_count b) (pendingRequests b),
                   sent := sent b @ [(ws, Envelope rid action params)] \<rparr>))"

text \<open>The callback of \<open>setTimeout\<close>. A timer that was cleared, or has fired, does not
  fire.\<close>

definition timeout_fires :: "nat \<Rightarrow> bridge \<Rightarrow> bridge" where
  "timeout_fires call b =
     (case map_of (timers b) call of
        None \<Rightarrow> b
      | Some (rid, action) \<Rightarrow>
          b\<lparr> timers := AList.delete call (timers b),
             pendingRequests := AList.delete rid (pendingRequests b),
             settled := settled b @
               [(call, Rejected (''Browser command '' @ action @ '' timed out''))] \<rparr>)"

text \<open>
  A message on a socket, as the handler sees it after \<open>JSON.parse\<close>: data that does not
  parse (or whose fields cannot be read), a \<open>register\<close> message, a \<open>result\<close> or an \<open>error\<close>
  message, or any other. The \<open>id\<close> of a message is \<open>Some n\<close> when it is the number \<open>n\<close>;
  an id that is absent or is no such number is the key of no entry.
\<close>

datatype ws_message =
    Unparsable
  | Register
  | ResultMessage "nat option" json
  | ErrorMessage "nat option" string
  | OtherMessage

definition settle_pending :: "nat option \<Rightarrow> outcome \<Rightarrow> bridge \<Rightarrow> bridge" where
  "settle_pending message_id result b =
     (case message_id of
        None \<Rightarrow> b
      | Some rid \<Rightarrow>
          (case map_of (pendingRequests b) rid of
             None \<Rightarrow> b
           | Some call \<Rightarrow>
               b\<lparr> timers := AList.delete call (timers b),
                  pendingRequests := AList.delete rid (pendingRequests b),
                  settled := settled b @ [(call, result)] \<rparr>))"

fun on_message :: "nat \<Rightarrow> ws_message \<Rightarrow> bridge \<Rightarrow> bridge" where
  "on_message ws Unparsable b = b"
| "on_message ws Register b = b\<lparr> sent := sent b @ [(ws, Registered)] \<rparr>"
| "on_message ws (ResultMessage message_id message) b =
     settle_pending message_id (Resolved message) b"
| "on_message ws (ErrorMessage message_id err) b =
     settle_pending message_id (Rejected err) b"
| "on_message ws OtherMessage b = b"

definition on_connection :: "nat \<Rightarrow> bridge \<Rightarrow> bridge" where
  "on_connection ws b = b\<lparr> browserExtensionSocket := Some ws \<rparr>"

definition on_close :: "nat \<Rightarrow> bridge \<Rightarrow> bridge" where
  "on_close ws b =
     (if browserExtensionSocket b = Some ws then b\<lparr> browserExtensionSocket := None \<rparr> else b)"

subsection \<open>Runs of the bridge\<close>

datatype bridge_event =
    Connection nat
  | SendCommand bool string json
  | Message nat ws_message
  | TimeoutFires nat
  | Close nat

fun bridge_step :: "bridge \<Rightarrow> bridge_event \<Rightarrow> bridge" where
  "bridge_step b (Connection ws) = on_connection ws b"
| "bridge_step b (SendCommand ready action params) = sendCommand ready action params b"
| "bridge_step b (Message ws m) = on_message ws m b"
| "bridge_step b (TimeoutFires call) = timeout_fires call b"
| "bridge_step b (Close ws) = on_close ws b"

definition bridge_run :: "bridge_event list \<Rightarrow> bridge" where
  "bridge_run evs = foldl bridge_step new_bridge evs"

text \<open>
  The invariant of the bridge: no promise has two calls of \<open>resolve\<close> or \<open>reject\<close>, no call
  has two timers, a call has an armed timer or an outcome and never both, and every
  entry of \<open>pendingRequests\<close> belongs to a call whose timer is armed and closes over the
  entry's id.
\<close>

definition bridge_inv :: "bridge \<Rightarrow> bool" where
  "bridge_inv b =
     (distinct (map fst (settled b)) \<and> distinct (map fst (timers b)) \<and>
      set (map fst (timers b)) \<inter> set (map fst (settled b)) = {} \<and>
      set (map fst (timers b)) \<union> set (map fst (settled b)) = {..<call_count b} \<and>
      set (map (\<lambda>(rid, call). (call, rid)) (pendingRequests b)) \<subseteq>
        set (map (\<lambda>(call, rid, action). (call, rid)) (timers b)))"

text \<open>A run for the examples: a socket connects and two commands are sent.\<close>

definition two_sent :: "bridge_event list" where
  "two_sent =
     [Connection 0,
      SendCommand True ''click'' (JObj [(''selector'', JStr ''#go'')]),
      SendCommand True ''read'' (JObj [])]"

section \<open>Properties of the turn controller\<close>

lemma tool_use_ids_append: "tool_use_ids (xs @ ys) = tool_use_ids xs @ tool_use_ids ys"
  by (induction xs rule: tool_use_ids.induct) auto

lemma tool_result_ids_append: "tool_result_ids (xs @ ys) = tool_result_ids xs @ tool_result_ids ys"
  by (induction xs rule: tool_result_ids.induct) auto

lemma paired_append: "paired xs \<Longrightarrow> paired ys \<Longrightarrow> paired (xs @ ys)"
  by (induction xs rule: paired.induct) auto

lemma dispatch_tools_events:
  "dispatch_tools E cs ts = (evs, rs, ts') \<Longrightarrow>
     paired evs \<and> list_all is_turn_output evs \<and>
     tool_use_ids evs = map tc_id cs \<and> tool_result_ids evs = map tc_id cs"
  by (induction cs arbitrary: ts evs rs ts') (auto split: prod.splits)

lemma textChunks_foldl:
  "list_all (\<lambda>e. \<exists>t. e = Text t) (textChunks d) \<Longrightarrow>
   list_all (\<lambda>e. \<exists>t. e = Text t) (textChunks (foldl (decode_event jp) d evs))"
proof (induction evs arbitrary: d)
  case Nil then show ?case by simp
next
  case (Cons e evs)
  have "list_all (\<lambda>e. \<exists>t. e = Text t) (textChunks (decode_event jp d e))"
    using Cons.prems by (cases "(jp, d, e)" rule: decode_event.cases) (auto split: option.splits simp: Let_def)
  then show ?case using Cons.IH by simp
qed

lemma textChunks_processStream:
  "list_all (\<lambda>e. \<exists>t. e = Text t) (textChunks (processStream jp evs))"
  unfolding processStream_def by (rule textChunks_foldl) (simp add: decoder_init_def)

lemma text_only_props:
  "list_all (\<lambda>e. \<exists>t. e = Text t) xs \<Longrightarrow>
     paired xs \<and> list_all is_turn_output xs \<and> tool_use_ids xs = [] \<and> tool_result_ids xs = []"
  by (induction xs) auto

lemma run_turn_cases:
  assumes "run_turn E c t a = (r, a')"
  shows "(r = Break \<and> (\<exists>m. emitted a' = emitted a @ [Error m])) \<or>
     (\<exists>b new. r = Next b \<and> emitted a' = emitted a @ new \<and> paired new \<and>
        list_all is_turn_output new \<and> tool_use_ids new = tool_result_ids new)"
proof -
  obtain messages hm where g: "getConversationHistory (conversationHistory a) c = (messages, hm)"
    by (cases "getConversationHistory (conversationHistory a) c")
  show ?thesis
  proof (cases "fetch E t messages")
    case (FetchThrows m)
    with assms g show ?thesis by (auto simp: run_turn_def yield_def)
  next
    case (HttpNotOk status body)
    with assms g show ?thesis by (cases body) (auto simp: run_turn_def yield_def)
  next
    case (Stream evs err)
    show ?thesis
    proof (cases err)
      case (Some m)
      with assms g Stream show ?thesis by (auto simp: run_turn_def yield_def)
    next
      case None
      let ?res = "processStream (json_parse E) evs"
      let ?th = "if thinking ?res \<noteq> [] then [Thinking (thinking ?res)] else []"
      have tc: "paired (textChunks ?res)" "list_all is_turn_output (textChunks ?res)"
        "tool_use_ids (textChunks ?res) = []" "tool_result_ids (textChunks ?res) = []"
        using text_only_props [OF textChunks_processStream] by blast+
      show ?thesis
      proof (cases "toolCalls ?res = []")
        case True
        have "r = Next False \<and> emitted a' = emitted a @ (textChunks ?res @ ?th)"
          using assms g Stream None True by (auto simp: run_turn_def yield_def Let_def)
        moreover have "paired (textChunks ?res @ ?th)" using tc by (auto intro: paired_append)
        moreover have "list_all is_turn_output (textChunks ?res @ ?th)" using tc by auto
        moreover have "tool_use_ids (textChunks ?res @ ?th) = tool_result_ids (textChunks ?res @ ?th)"
          using tc by (auto simp: tool_use_ids_append tool_result_ids_append)
        ultimately show ?thesis by blast
      next
        case False
        let ?a2 = "yield ?th (yield (textChunks ?res) (a\<lparr>conversationHistory := hm\<rparr>))"
        obtain evs' rs ts' where d: "dispatch_tools E (toolCalls ?res) (tools a) = (evs', rs, ts')"
          by (cases "dispatch_tools E (toolCalls ?res) (tools a)")
        note p = dispatch_tools_events [OF d]
        have "r = Next True \<and> emitted a' = emitted a @ (textChunks ?res @ ?th @ evs')"
          using assms g Stream None False d by (auto simp: run_turn_def yield_def Let_def)
        moreover have "paired (textChunks ?res @ ?th @ evs')" using tc p by (auto intro!: paired_append)
        moreover have "list_all is_turn_output (textChunks ?res @ ?th @ evs')" using tc p by auto
        moreover have "tool_use_ids (textChunks ?res @ ?th @ evs') = tool_result_ids (textChunks ?res @ ?th @ evs')"
          using tc p by (auto simp: tool_use_ids_append tool_result_ids_append)
        ultimately show ?thesis by blast
      qed
    qed
  qed
qed


lemma turn_loop_stop: "\<not> t < mx \<Longrightarrow> turn_loop E mx c t a = (t, a)"
  by (subst turn_loop.simps) simp

lemma turn_loop_step:
  "t < mx \<Longrightarrow> turn_loop E mx c t a =
     (case run_turn E c (Suc t) a of
        (Break, a') \<Rightarrow> (Suc t, a')
      | (Next False, a') \<Rightarrow> (Suc t, a')
      | (Next True, a') \<Rightarrow> turn_loop E mx c (Suc t) a')"
  by (subst turn_loop.simps) simp

lemma turn_loop_events:
  "turn_loop E mx c t a = (n, a') \<Longrightarrow>
     \<exists>body tail. emitted a' = emitted a @ body @ tail \<and> list_all is_turn_output body \<and>
        (tail = [] \<or> (\<exists>m. tail = [Error m])) \<and>
        paired body \<and> tool_use_ids body = tool_result_ids body"
proof (induction E mx c t a arbitrary: n a' rule: turn_loop.induct)
  case (1 E mx c t a)
  show ?case
  proof (cases "t < mx")
    case False
    with "1.prems" have "a' = a" by (simp add: turn_loop_stop)
    then show ?thesis by (intro exI [of _ "[]"]) simp
  next
    case True
    obtain r a1 where rt: "run_turn E c (Suc t) a = (r, a1)"
      by (cases "run_turn E c (Suc t) a")
    from run_turn_cases [OF rt] show ?thesis
    proof
      assume "r = Break \<and> (\<exists>m. emitted a1 = emitted a @ [Error m])"
      then obtain m where b: "r = Break" "emitted a1 = emitted a @ [Error m]" by blast
      with "1.prems" turn_loop_step [OF True, of E c a] rt have "a' = a1" by simp
      with b show ?thesis by (intro exI [of _ "[]"] exI [of _ "[Error m]"]) simp
    next
      assume "\<exists>b new. r = Next b \<and> emitted a1 = emitted a @ new \<and> paired new \<and>
        list_all is_turn_output new \<and> tool_use_ids new = tool_result_ids new"
      then obtain b new where nx: "r = Next b" "emitted a1 = emitted a @ new" "paired new"
        "list_all is_turn_output new" "tool_use_ids new = tool_result_ids new" by blast
      show ?thesis
      proof (cases b)
        case False
        with "1.prems" turn_loop_step [OF True, of E c a] rt nx(1) have "a' = a1" by simp
        with nx show ?thesis by (intro exI [of _ new] exI [of _ "[]"]) simp
      next
        case b: True
        with "1.prems" turn_loop_step [OF True, of E c a] rt nx(1)
        have tl: "turn_loop E mx c (Suc t) a1 = (n, a')"
          by simp
        have "\<exists>body tail. emitted a' = emitted a1 @ body @ tail \<and>
          list_all is_turn_output body \<and> (tail = [] \<or> (\<exists>m. tail = [Error m])) \<and>
          paired body \<and> tool_use_ids body = tool_result_ids body"
          using "1.IH" [OF True rt [symmetric] _ refl tl] nx(1) b by simp
        then obtain body tail where ih: "emitted a' = emitted a1 @ body @ tail"
          "list_all is_turn_output body" "tail = [] \<or> (\<exists>m. tail = [Error m])"
          "paired body" "tool_use_ids body = tool_result_ids body" by blast
        show ?thesis
          using ih nx
          by (intro exI [of _ "new @ body"] exI [of _ tail])
             (simp add: paired_append tool_use_ids_append tool_result_ids_append)
      qed
    qed
  qed
qed

lemma turn_loop_bound: "turn_loop E mx c t a = (n, a') \<Longrightarrow> t \<le> n \<and> n \<le> max t mx"
proof (induction E mx c t a arbitrary: n a' rule: turn_loop.induct)
  case (1 E mx c t a)
  show ?case
  proof (cases "t < mx")
    case False
    with "1.prems" show ?thesis by (simp add: turn_loop_stop)
  next
    case True
    obtain r a1 where rt: "run_turn E c (Suc t) a = (r, a1)"
      by (cases "run_turn E c (Suc t) a")
    note step = turn_loop_step [OF True, of E c a, unfolded rt]
    show ?thesis
    proof (cases "r = Next True")
      case False
      have "turn_loop E mx c t a = (Suc t, a1)"
      proof (cases r)
        case Break
        then show ?thesis using step by simp
      next
        case (Next b)
        with False have "b = False" by simp
        with Next show ?thesis using step by simp
      qed
      with "1.prems" True show ?thesis by simp
    next
      case nt: True
      with "1.prems" step have tl: "turn_loop E mx c (Suc t) a1 = (n, a')"
        by simp
      from "1.IH" [OF True rt [symmetric] nt refl tl] True show ?thesis by simp
    qed
  qed
qed

lemma run_turn_calls_tools:
  assumes "calls_tools E t (fst (getConversationHistory (conversationHistory a) c))"
  shows "fst (run_turn E c t a) = Next True"
proof -
  obtain messages hm where g: "getConversationHistory (conversationHistory a) c = (messages, hm)"
    by (cases "getConversationHistory (conversationHistory a) c")
  with assms obtain evs where "fetch E t messages = Stream evs None"
    "toolCalls (processStream (json_parse E) evs) \<noteq> []"
    by (auto simp: calls_tools_def split: turn_response.splits option.splits)
  with g show ?thesis
    by (auto simp: run_turn_def Let_def split: prod.splits)
qed

lemma turn_loop_calls_tools:
  "\<forall>t ms. calls_tools E t ms \<Longrightarrow> fst (turn_loop E mx c t a) = max t mx"
proof (induction E mx c t a rule: turn_loop.induct)
  case (1 E mx c t a)
  show ?case
  proof (cases "t < mx")
    case False
    then show ?thesis by (simp add: turn_loop_stop)
  next
    case True
    obtain r a1 where rt: "run_turn E c (Suc t) a = (r, a1)"
      by (cases "run_turn E c (Suc t) a")
    have r: "r = Next True" using run_turn_calls_tools [of E "Suc t" a c] "1.prems" rt by simp
    have "fst (turn_loop E mx c (Suc t) a1) = max (Suc t) mx"
      using "1.IH" [OF True rt [symmetric] r refl "1.prems"] .
    then show ?thesis using turn_loop_step [OF True, of E c a] rt r True by simp
  qed
qed

lemma run_turn_turn_events:
  "emitted (snd (run_turn E c t a)) = emitted a @ turn_events E c t a"
proof -
  obtain r a' where rt: "run_turn E c t a = (r, a')" by (cases "run_turn E c t a")
  from run_turn_cases [OF rt] show ?thesis by (auto simp: turn_events_def rt)
qed

lemma turn_events_tool_ids:
  "paired (turn_events E c t a) \<and>
   tool_use_ids (turn_events E c t a) = map tc_id (decoded_calls E c t a) \<and>
   tool_result_ids (turn_events E c t a) = map tc_id (decoded_calls E c t a)"
proof -
  obtain messages hm where g: "getConversationHistory (conversationHistory a) c = (messages, hm)"
    by (cases "getConversationHistory (conversationHistory a) c")
  show ?thesis
  proof (cases "fetch E t messages")
    case (FetchThrows m)
    with g show ?thesis by (simp add: turn_events_def decoded_calls_def run_turn_def yield_def)
  next
    case (HttpNotOk status body)
    with g show ?thesis
      by (cases body) (simp_all add: turn_events_def decoded_calls_def run_turn_def yield_def)
  next
    case (Stream evs err)
    show ?thesis
    proof (cases err)
      case (Some m)
      with g Stream show ?thesis
        by (simp add: turn_events_def decoded_calls_def run_turn_def yield_def)
    next
      case None
      let ?res = "processStream (json_parse E) evs"
      let ?th = "if thinking ?res \<noteq> [] then [Thinking (thinking ?res)] else []"
      have tc: "paired (textChunks ?res)"
        "tool_use_ids (textChunks ?res) = []" "tool_result_ids (textChunks ?res) = []"
        using text_only_props [OF textChunks_processStream] by blast+
      have dc: "decoded_calls E c t a = toolCalls ?res"
        using g Stream None by (simp add: decoded_calls_def)
      show ?thesis
      proof (cases "toolCalls ?res = []")
        case True
        have "turn_events E c t a = textChunks ?res @ ?th"
          using g Stream None True by (simp add: turn_events_def run_turn_def yield_def Let_def)
        then show ?thesis using tc dc True
          by (auto simp: tool_use_ids_append tool_result_ids_append intro: paired_append)
      next
        case False
        obtain evs' rs ts' where d: "dispatch_tools E (toolCalls ?res) (tools a) = (evs', rs, ts')"
          by (cases "dispatch_tools E (toolCalls ?res) (tools a)")
        note p = dispatch_tools_events [OF d]
        have "turn_events E c t a = textChunks ?res @ ?th @ evs'"
          using g Stream None False d by (simp add: turn_events_def run_turn_def yield_def Let_def)
        then show ?thesis using tc dc p
          by (auto simp: tool_use_ids_append tool_result_ids_append intro!: paired_append)
      qed
    qed
  qed
qed

lemma query_events:
  "\<exists>body tail. emitted (snd (query E mx p c a)) = SessionInit c # body @ tail @ [Done] \<and>
     list_all is_turn_output body \<and>
     (tail = [] \<or> (\<exists>m. tail = [Error m]) \<or> (\<exists>m. tail = [Error m, max_turns_notice])) \<and>
     paired (body @ tail) \<and> tool_use_ids (body @ tail) = tool_result_ids (body @ tail)"
proof -
  let ?a2 = "yield [SessionInit c]
     (a\<lparr> tools := setSessionId E c (tools a),
         conversationHistory := addToHistory (conversationHistory a) c \<lparr> role = User, content = Plain p \<rparr>,
         emitted := [] \<rparr>)"
  obtain n a3 where tl: "turn_loop E mx c 0 ?a2 = (n, a3)" by (cases "turn_loop E mx c 0 ?a2")
  from turn_loop_events [OF tl] obtain body tail where b:
    "emitted a3 = [SessionInit c] @ body @ tail" "list_all is_turn_output body"
    "tail = [] \<or> (\<exists>m. tail = [Error m])" "paired body" "tool_use_ids body = tool_result_ids body"
    by (auto simp: yield_def)
  have q: "emitted (snd (query E mx p c a)) =
      emitted a3 @ (if n \<ge> mx then [max_turns_notice] else []) @ [Done]"
    using tl by (simp add: query_def Let_def yield_def)
  show ?thesis
  proof (cases "n \<ge> mx")
    case False
    with q b show ?thesis
      by (intro exI [of _ body] exI [of _ tail])
         (auto simp: tool_use_ids_append tool_result_ids_append paired_append)
  next
    case True
    from b(3) show ?thesis
    proof
      assume "tail = []"
      with q b True show ?thesis
        by (intro exI [of _ "body @ [max_turns_notice]"] exI [of _ "[]"])
           (auto simp: tool_use_ids_append tool_result_ids_append paired_append max_turns_notice_def)
    next
      assume "\<exists>m. tail = [Error m]"
      then obtain m where "tail = [Error m]" by blast
      with q b True show ?thesis
        by (intro exI [of _ body] exI [of _ "[Error m, max_turns_notice]"])
           (auto simp: tool_use_ids_append tool_result_ids_append paired_append max_turns_notice_def)
    qed
  qed
qed

lemma failed_request_events:
  assumes "fetch E 1 (fst (getConversationHistory
             (addToHistory (conversationHistory a) chatId
                \<lparr> role = User, content = Plain prompt \<rparr>) chatId)) = FetchThrows m"
    and "0 < maxTurns"
  shows "emitted (snd (query E maxTurns prompt chatId a)) =
     [SessionInit chatId, Error m] @ (if maxTurns = 1 then [max_turns_notice] else []) @ [Done]"
proof -
  let ?hm = "addToHistory (conversationHistory a) chatId \<lparr> role = User, content = Plain prompt \<rparr>"
  let ?a2 = "yield [SessionInit chatId]
     (a\<lparr> tools := setSessionId E chatId (tools a), conversationHistory := ?hm, emitted := [] \<rparr>)"
  obtain messages hm' where g: "getConversationHistory ?hm chatId = (messages, hm')"
    by (cases "getConversationHistory ?hm chatId")
  have rt: "run_turn E chatId (Suc 0) ?a2 =
      (Break, yield [Error m] (?a2\<lparr> conversationHistory := hm' \<rparr>))"
    using assms(1) g by (simp add: run_turn_def yield_def)
  have tl: "turn_loop E maxTurns chatId 0 ?a2 =
      (Suc 0, yield [Error m] (?a2\<lparr> conversationHistory := hm' \<rparr>))"
    using turn_loop_step [OF assms(2), of E chatId ?a2] rt by simp
  show ?thesis
    using tl assms(2) by (auto simp: query_def Let_def yield_def)
qed

text \<open>
  C2: the claim holds of a run that does not abort, and fails on the code when a run
  aborts. With a proxy that answers every request with status 500 the generator yields
  \<open>error\<close>, leaves the loop with \<open>break\<close> and falls through to the \<open>yield\<close> of \<open>done\<close>:
  \<open>error\<close> is not the last event. When the abort comes in the last allowed turn (here
  \<open>maxTurns = 1\<close>) the max-turns notice is yielded between \<open>error\<close> and \<open>done\<close> as well.
\<close>

theorem query_error_followed_by_done:
  "emitted (snd (query api_down_env 50 ''hi'' ''chat1'' agent0)) =
     [SessionInit ''chat1'', Error ''API error: 500'', Done] \<and>
   emitted (snd (query api_down_env 1 ''hi'' ''chat1'' agent0)) =
     [SessionInit ''chat1'', Error ''API error: 500'', max_turns_notice, Done]"
  by (simp add: query_def api_down_env_def agent0_def turn_loop_step run_turn_def yield_def
      addToHistory_def getConversationHistory_def push_trim_def show_nat.simps digit_char_def
      Let_def)

text \<open>
  C3: the events one turn adds to the stream pair every \<open>tool_use\<close> with the
  \<open>tool_result\<close> that follows it at once, and the ids of the \<open>tool_use\<close> events and of the
  \<open>tool_result\<close> events are both the ids of the tool calls decoded in that turn, in
  the decoder's order. Over a whole run the stream is paired in the same way and the two
  id sequences are equal, so there are as many results as calls.
\<close>

theorem tool_results_match_tool_uses:
  "emitted (snd (run_turn E chatId turn a)) = emitted a @ turn_events E chatId turn a \<and>
   paired (turn_events E chatId turn a) \<and>
   tool_use_ids (turn_events E chatId turn a) = map tc_id (decoded_calls E chatId turn a) \<and>
   tool_result_ids (turn_events E chatId turn a) = map tc_id (decoded_calls E chatId turn a) \<and>
   paired (emitted (snd (query E maxTurns prompt chatId a))) \<and>
   tool_result_ids (emitted (snd (query E maxTurns prompt chatId a))) =
     tool_use_ids (emitted (snd (query E maxTurns prompt chatId a))) \<and>
   length (tool_result_ids (emitted (snd (query E maxTurns prompt chatId a)))) =
     length (tool_use_ids (emitted (snd (query E maxTurns prompt chatId a))))"
proof -
  obtain body tail where q:
    "emitted (snd (query E maxTurns prompt chatId a)) = SessionInit chatId # body @ tail @ [Done]"
    "paired (body @ tail)" "tool_use_ids (body @ tail) = tool_result_ids (body @ tail)"
    using query_events [of E maxTurns prompt chatId a] by blast
  have "paired ((body @ tail) @ [Done])"
    using q(2) by (rule paired_append) simp
  then have p: "paired (emitted (snd (query E maxTurns prompt chatId a)))"
    using q(1) by simp
  have "tool_use_ids ((body @ tail) @ [Done]) = tool_result_ids ((body @ tail) @ [Done])"
    using q(3) by (simp only: tool_use_ids_append tool_result_ids_append) simp
  then have i: "tool_result_ids (emitted (snd (query E maxTurns prompt chatId a))) =
     tool_use_ids (emitted (snd (query E maxTurns prompt chatId a)))"
    using q(1) by simp
  show ?thesis
    using run_turn_turn_events [of E chatId turn a] turn_events_tool_ids [of E chatId turn a] p i
    by simp
qed

text \<open>
  C7: \<open>query\<close> is a total function, and the turn counter it ends with is at most
  \<open>maxTurns\<close>. When every request is answered with tool calls, whatever the tools return,
  the loop runs exactly \<open>maxTurns\<close> times and the stream ends with the max-turns notice
  followed by \<open>done\<close>.
\<close>

theorem query_turn_bound:
  "fst (query E maxTurns prompt chatId a) \<le> maxTurns \<and>
   ((\<forall>turn messages. calls_tools E turn messages) \<longrightarrow>
      fst (query E maxTurns prompt chatId a) = maxTurns \<and>
      (\<exists>pre. emitted (snd (query E maxTurns prompt chatId a)) = pre @ [max_turns_notice, Done]))"
proof -
  let ?a2 = "yield [SessionInit chatId]
     (a\<lparr> tools := setSessionId E chatId (tools a),
         conversationHistory :=
           addToHistory (conversationHistory a) chatId \<lparr> role = User, content = Plain prompt \<rparr>,
         emitted := [] \<rparr>)"
  obtain n a3 where tl: "turn_loop E maxTurns chatId 0 ?a2 = (n, a3)"
    by (cases "turn_loop E maxTurns chatId 0 ?a2")
  have n: "fst (query E maxTurns prompt chatId a) = n"
    using tl by (simp add: query_def Let_def)
  have e: "emitted (snd (query E maxTurns prompt chatId a)) =
      emitted a3 @ (if n \<ge> maxTurns then [max_turns_notice] else []) @ [Done]"
    using tl by (simp add: query_def Let_def yield_def)
  have b: "n \<le> maxTurns" using turn_loop_bound [OF tl] by simp
  have "n = maxTurns \<and> (\<exists>pre. emitted (snd (query E maxTurns prompt chatId a)) =
            pre @ [max_turns_notice, Done])"
    if "\<forall>turn messages. calls_tools E turn messages"
  proof -
    have "n = maxTurns" using turn_loop_calls_tools [OF that, of maxTurns chatId 0 ?a2] tl by simp
    then show ?thesis using e by simp
  qed
  then show ?thesis using n b by auto
qed

theorem query_turn_bound_witness:
  "(\<forall>turn messages. calls_tools tool_loop_env turn messages) \<and>
   fst (query tool_loop_env 3 ''hi'' ''chat1'' agent0) = 3 \<and>
   (\<exists>pre. emitted (snd (query tool_loop_env 3 ''hi'' ''chat1'' agent0)) =
      pre @ [max_turns_notice, Done])"
proof -
  have h: "\<forall>turn messages. calls_tools tool_loop_env turn messages"
    by (simp add: calls_tools_def tool_loop_env_def processStream_def decoder_init_def Let_def)
  show ?thesis
    using h query_turn_bound [of tool_loop_env 3 "''hi''" "''chat1''" agent0] by blast
qed

section \<open>Properties of the history window\<close>

text \<open>
  C4, as stated, fails. Chat \<open>chat1\<close> first runs against a proxy that answers 500, which
  leaves the prompt alone in its history; the next run meets a proxy that answers every
  request with a tool call, for 50 turns. The assistant message of turn 50 is the 101st
  entry, the trim drops the 21 oldest, and the cut falls between the assistant message
  of turn 10 and the user message with its result: the history keeps the tool result
  \<open>t10\<close> and no longer holds the tool-use block \<open>t10\<close>.
\<close>

theorem trim_splits_tool_pair:
  "map_option orphan_results
     (conversationHistory
        (snd (query tool_loop_env 50 ''go'' ''chat1''
           (snd (query api_down_env 50 ''hi'' ''chat1'' agent0)))) ''chat1'') =
   Some [''t10'']"
  by code_simp

lemma push_trim_window:
  "length (push_trim h m) = (if length h < 100 then length h + 1 else 80) \<and>
   suffix (push_trim h m) (h @ [m]) \<and> last (push_trim h m) = m"
proof (cases "length h < 100")
  case True
  then show ?thesis by (simp add: push_trim_def Let_def)
next
  case False
  then have p: "push_trim h m = drop (length h - 79) (h @ [m])"
    by (simp add: push_trim_def Let_def Suc_diff_le)
  have "suffix (drop (length h - 79) (h @ [m])) (h @ [m])" by (rule suffix_drop)
  moreover have "last (drop (length h - 79) (h @ [m])) = m"
    using False by (simp add: last_drop)
  moreover have "length (drop (length h - 79) (h @ [m])) = 80" using False by simp
  ultimately show ?thesis using p False by simp
qed

text \<open>
  C4, amended: appending to a chat's history stores a suffix of the old history followed
  by the new message, so whatever is dropped is dropped from the old end; the stored
  history ends with the new message and has at most 100 entries: one more than before
  while the old history has fewer than 100, the newest 80 otherwise. The cut is made by
  count alone.
\<close>

theorem addToHistory_window:
  "\<exists>h'. addToHistory hm chatId m chatId = Some h' \<and>
     length h' \<le> 100 \<and>
     length h' =
       (if length (fst (getConversationHistory hm chatId)) < 100
        then length (fst (getConversationHistory hm chatId)) + 1 else 80) \<and>
     suffix h' (fst (getConversationHistory hm chatId) @ [m]) \<and>
     last h' = m"
proof -
  obtain h hm' where g: "getConversationHistory hm chatId = (h, hm')"
    by (cases "getConversationHistory hm chatId")
  have "addToHistory hm chatId m chatId = Some (push_trim h m)"
    using g by (simp add: addToHistory_def)
  moreover have "length (push_trim h m) \<le> 100"
    using push_trim_window [of h m] by (simp split: if_splits)
  ultimately show ?thesis using push_trim_window [of h m] g by simp
qed

section \<open>Properties of the capability gate\<close>

lemma logAudit_fields [simp]:
  "sb_pendingPermissions (logAudit e s) = sb_pendingPermissions s"
  "sb_approvedPaths (logAudit e s) = sb_approvedPaths s"
  "sb_deniedPaths (logAudit e s) = sb_deniedPaths s"
  "sb_config (logAudit e s) = sb_config s"
  by (simp_all add: logAudit_def Let_def)

lemma isBlocked_logAudit [simp]: "isBlocked H (logAudit e s) p = isBlocked H s p"
  by (simp add: isBlocked_def)

lemma isDenied_logAudit [simp]: "isDenied H (logAudit e s) sid p = isDenied H s sid p"
  by (simp add: isDenied_def)

lemma isApproved_logAudit [simp]: "isApproved H (logAudit e s) sid p = isApproved H s sid p"
  by (simp add: isApproved_def)

lemma isSensitive_logAudit [simp]: "isSensitive H (logAudit e s) p = isSensitive H s p"
  by (simp add: isSensitive_def)

lemma requestPermission_fields:
  "sb_approvedPaths (snd (requestPermission now rnd sid opn p r s)) = sb_approvedPaths s"
  "sb_deniedPaths (snd (requestPermission now rnd sid opn p r s)) = sb_deniedPaths s"
  "sb_config (snd (requestPermission now rnd sid opn p r s)) = sb_config s"
  "sb_pendingPermissions (snd (requestPermission now rnd sid opn p r s)) =
     AList.update (perm_id (fst (requestPermission now rnd sid opn p r s)))
       (fst (requestPermission now rnd sid opn p r s)) (sb_pendingPermissions s)"
  "perm_sessionId (fst (requestPermission now rnd sid opn p r s)) = sid"
  "perm_path (fst (requestPermission now rnd sid opn p r s)) = p"
  by (simp_all add: requestPermission_def Let_def)

lemma validateOperation_sets:
  "sb_approvedPaths (snd (validateOperation H now rnd ps s)) = sb_approvedPaths s"
  "sb_deniedPaths (snd (validateOperation H now rnd ps s)) = sb_deniedPaths s"
  "sb_config (snd (validateOperation H now rnd ps s)) = sb_config s"
  by (simp_all add: validateOperation_def Let_def requestPermission_fields case_prod_beta)

lemma validateOperation_pending:
  "sb_pendingPermissions (snd (validateOperation H now rnd ps s)) = sb_pendingPermissions s \<or>
   (\<exists>p. sb_pendingPermissions (snd (validateOperation H now rnd ps s)) =
          AList.update (perm_id p) p (sb_pendingPermissions s) \<and>
        perm_sessionId p = vp_sessionId ps \<and> perm_path p = vp_path ps \<and>
        \<not> isDenied H s (vp_sessionId ps) (vp_path ps) \<and>
        \<not> isApproved H s (vp_sessionId ps) (vp_path ps))"
proof -
  let ?s0 = "logAudit \<lparr> au_sessionId = vp_sessionId ps, au_operation = vp_operation ps,
        au_path = vp_path ps, au_timestamp = now, au_action = ActAttempt, au_reason = None,
        au_permissionId = None \<rparr> s"
  let ?r = "\<lambda>reason. requestPermission now rnd (vp_sessionId ps) (vp_operation ps)
        (vp_path ps) reason ?s0"
  let ?free = "\<not> isBlocked H s (vp_path ps) \<and> \<not> isDenied H s (vp_sessionId ps) (vp_path ps) \<and>
        \<not> isApproved H s (vp_sessionId ps) (vp_path ps)"
  let ?sens = "cfg_requireApproval (sb_config s) \<and> isSensitive H s (vp_path ps)"
  let ?dang = "(vp_operation ps = OpWrite \<or> vp_operation ps = OpExecute) \<and>
        isDangerousExtension H (vp_path ps)"
  have upd: "sb_pendingPermissions (snd (?r reason)) =
      AList.update (perm_id (fst (?r reason))) (fst (?r reason)) (sb_pendingPermissions s)"
    "perm_sessionId (fst (?r reason)) = vp_sessionId ps"
    "perm_path (fst (?r reason)) = vp_path ps" for reason
    by (simp_all add: requestPermission_fields)
  consider (same) "\<not> ?free \<or> (\<not> ?sens \<and> \<not> ?dang)" | (sens) "?free" "?sens"
    | (dang) "?free" "\<not> ?sens" "?dang"
    by blast
  then show ?thesis
  proof cases
    case same
    then have "sb_pendingPermissions (snd (validateOperation H now rnd ps s)) =
        sb_pendingPermissions s"
      by (auto simp: validateOperation_def Let_def case_prod_beta)
    then show ?thesis ..
  next
    case sens
    then have "snd (validateOperation H now rnd ps s) =
        snd (?r (case vp_reason ps of
                   Some r \<Rightarrow> if r \<noteq> [] then r
                             else operation_name (vp_operation ps) @ '' operation on sensitive path''
                 | None \<Rightarrow> operation_name (vp_operation ps) @ '' operation on sensitive path''))"
      by (simp add: validateOperation_def Let_def case_prod_beta)
    then have "\<exists>reason. snd (validateOperation H now rnd ps s) = snd (?r reason)" ..
    then obtain reason where "snd (validateOperation H now rnd ps s) = snd (?r reason)" ..
    with upd [of reason] sens(1) show ?thesis by auto
  next
    case dang
    then have "snd (validateOperation H now rnd ps s) =
        snd (?r ''Creating/executing file with potentially dangerous extension'')"
      by (auto simp: validateOperation_def Let_def case_prod_beta)
    then have "\<exists>reason. snd (validateOperation H now rnd ps s) = snd (?r reason)" ..
    then obtain reason where "snd (validateOperation H now rnd ps s) = snd (?r reason)" ..
    with upd [of reason] dang(1) show ?thesis by auto
  qed
qed

lemma not_isDenied_notin:
  "\<not> isDenied H s sid p \<Longrightarrow> normalizePath H p \<notin> set (paths_of (sb_deniedPaths s) sid)"
  by (auto simp: isDenied_def paths_of_def startsWith_def list_ex_iff split: option.splits)

lemma not_isApproved_notin:
  "\<not> isApproved H s sid p \<Longrightarrow> normalizePath H p \<notin> set (paths_of (sb_approvedPaths s) sid)"
  by (auto simp: isApproved_def paths_of_def startsWith_def list_ex_iff split: option.splits)

lemma set_update_subset: "set (AList.update k v al) \<subseteq> insert (k, v) (set al)"
  by (induction al) auto

lemma set_delete: "set (AList.delete k al) = {(j, q). (j, q) \<in> set al \<and> j \<noteq> k}"
  by (auto simp: AList.delete_eq)

lemma set_set_add [simp]: "set (set_add x xs) = insert x (set xs)"
  by (auto simp: set_add_def)

lemma paths_of_upd:
  "paths_of (m(k \<mapsto> l)) sid = (if sid = k then l else paths_of m sid)"
  by (simp add: paths_of_def)

lemma approvePermission_state:
  assumes "map_of (sb_pendingPermissions s) i = Some p"
  shows "sb_pendingPermissions (snd (approvePermission H now i s)) =
           AList.delete i (sb_pendingPermissions s)"
    and "sb_deniedPaths (snd (approvePermission H now i s)) = sb_deniedPaths s"
    and "sb_approvedPaths (snd (approvePermission H now i s)) =
           (sb_approvedPaths s)(session_key p \<mapsto>
              set_add (normalizePath H (perm_path p)) (paths_of (sb_approvedPaths s) (session_key p)))"
    and "fst (approvePermission H now i s) = Some (p\<lparr> perm_status := StatusApproved \<rparr>)"
  using assms by (simp_all add: approvePermission_def Let_def session_key_def)

lemma denyPermission_state:
  assumes "map_of (sb_pendingPermissions s) i = Some p"
  shows "sb_pendingPermissions (snd (denyPermission H now i s)) =
           AList.delete i (sb_pendingPermissions s)"
    and "sb_approvedPaths (snd (denyPermission H now i s)) = sb_approvedPaths s"
    and "sb_deniedPaths (snd (denyPermission H now i s)) =
           (sb_deniedPaths s)(session_key p \<mapsto>
              set_add (normalizePath H (perm_path p)) (paths_of (sb_deniedPaths s) (session_key p)))"
    and "fst (denyPermission H now i s) = Some (p\<lparr> perm_status := StatusDenied \<rparr>)"
  using assms by (simp_all add: denyPermission_def Let_def session_key_def)

lemma resolve_absent:
  assumes "map_of (sb_pendingPermissions s) i = None"
  shows "approvePermission H now i s = (None, s)" and "denyPermission H now i s = (None, s)"
  using assms by (simp_all add: approvePermission_def denyPermission_def)

lemma pending_other_path:
  assumes inv: "gate_inv H s" and d: "distinct (pending_keys H s)"
    and p: "map_of (sb_pendingPermissions s) i = Some p"
    and q: "(j, q) \<in> set (sb_pendingPermissions s)" "j \<noteq> i"
    and k: "perm_sessionId q = perm_sessionId p"
  shows "normalizePath H (perm_path q) \<noteq> normalizePath H (perm_path p)"
proof
  assume e: "normalizePath H (perm_path q) = normalizePath H (perm_path p)"
  let ?f = "\<lambda>(i, p). (session_key p, normalizePath H (perm_path p))"
  have ip: "(i, p) \<in> set (sb_pendingPermissions s)" using p by (rule map_of_SomeD)
  have "inj_on ?f (set (sb_pendingPermissions s))"
    using d by (simp add: pending_keys_def distinct_map)
  moreover have "?f (j, q) = ?f (i, p)" using e k by (simp add: session_key_def)
  ultimately have "(j, q) = (i, p)" using q(1) ip by (rule inj_onD)
  with q(2) show False by simp
qed

lemma gate_inv_approve:
  assumes inv: "gate_inv H s" and d: "distinct (pending_keys H s)"
  shows "gate_inv H (snd (approvePermission H now i s))"
proof (cases "map_of (sb_pendingPermissions s) i")
  case None
  then show ?thesis using inv by (simp add: resolve_absent)
next
  case (Some p)
  have ip: "(i, p) \<in> set (sb_pendingPermissions s)" using Some by (rule map_of_SomeD)
  from inv ip have pp: "perm_sessionId p \<noteq> []"
    "normalizePath H (perm_path p) \<notin> set (paths_of (sb_deniedPaths s) (perm_sessionId p))"
    by (auto simp: gate_inv_def)
  then have k: "session_key p = perm_sessionId p" by (simp add: session_key_def)
  note st = approvePermission_state [OF Some, of H now]
  show ?thesis
    unfolding gate_inv_def st k
  proof (intro conjI allI ballI)
    fix sid
    show "set (paths_of ((sb_approvedPaths s)(perm_sessionId p \<mapsto>
             set_add (normalizePath H (perm_path p))
               (paths_of (sb_approvedPaths s) (perm_sessionId p)))) sid) \<inter>
          set (paths_of (sb_deniedPaths s) sid) = {}"
      using inv pp by (auto simp: gate_inv_def paths_of_upd)
  next
    fix x assume x: "x \<in> set (AList.delete i (sb_pendingPermissions s))"
    obtain j q where jq: "x = (j, q)" by (cases x)
    with x have m: "(j, q) \<in> set (sb_pendingPermissions s)" "j \<noteq> i" by (auto simp: set_delete)
    from inv m(1) have qq: "perm_sessionId q \<noteq> []"
      "normalizePath H (perm_path q) \<notin> set (paths_of (sb_approvedPaths s) (perm_sessionId q))"
      "normalizePath H (perm_path q) \<notin> set (paths_of (sb_deniedPaths s) (perm_sessionId q))"
      by (auto simp: gate_inv_def)
    have "perm_sessionId q = perm_sessionId p \<Longrightarrow>
          normalizePath H (perm_path q) \<noteq> normalizePath H (perm_path p)"
      by (rule pending_other_path [OF inv d Some m])
    with qq show "case x of (i, pa) \<Rightarrow> perm_sessionId pa \<noteq> [] \<and>
        normalizePath H (perm_path pa) \<notin> set (paths_of ((sb_approvedPaths s)(perm_sessionId p \<mapsto>
             set_add (normalizePath H (perm_path p))
               (paths_of (sb_approvedPaths s) (perm_sessionId p)))) (perm_sessionId pa)) \<and>
        normalizePath H (perm_path pa) \<notin> set (paths_of (sb_deniedPaths s) (perm_sessionId pa))"
      unfolding jq by (auto simp: paths_of_upd)
  qed
qed


lemma gate_inv_deny:
  assumes inv: "gate_inv H s" and d: "distinct (pending_keys H s)"
  shows "gate_inv H (snd (denyPermission H now i s))"
proof (cases "map_of (sb_pendingPermissions s) i")
  case None
  then show ?thesis using inv by (simp add: resolve_absent)
next
  case (Some p)
  have ip: "(i, p) \<in> set (sb_pendingPermissions s)" using Some by (rule map_of_SomeD)
  from inv ip have pp: "perm_sessionId p \<noteq> []"
    "normalizePath H (perm_path p) \<notin> set (paths_of (sb_approvedPaths s) (perm_sessionId p))"
    by (auto simp: gate_inv_def)
  then have k: "session_key p = perm_sessionId p" by (simp add: session_key_def)
  note st = denyPermission_state [OF Some, of H now]
  let ?D = "(sb_deniedPaths s)(perm_sessionId p \<mapsto>
      set_add (normalizePath H (perm_path p)) (paths_of (sb_deniedPaths s) (perm_sessionId p)))"
  have disj: "set (paths_of (sb_approvedPaths s) sid) \<inter> set (paths_of ?D sid) = {}" for sid
    using inv pp by (auto simp: gate_inv_def paths_of_upd)
  have pend: "perm_sessionId q \<noteq> [] \<and>
      normalizePath H (perm_path q) \<notin> set (paths_of (sb_approvedPaths s) (perm_sessionId q)) \<and>
      normalizePath H (perm_path q) \<notin> set (paths_of ?D (perm_sessionId q))"
    if x: "(j, q) \<in> set (AList.delete i (sb_pendingPermissions s))" for j q
  proof -
    from x have m: "(j, q) \<in> set (sb_pendingPermissions s)" "j \<noteq> i" by (auto simp: set_delete)
    from inv m(1) have qq: "perm_sessionId q \<noteq> []"
      "normalizePath H (perm_path q) \<notin> set (paths_of (sb_approvedPaths s) (perm_sessionId q))"
      "normalizePath H (perm_path q) \<notin> set (paths_of (sb_deniedPaths s) (perm_sessionId q))"
      by (auto simp: gate_inv_def)
    have "perm_sessionId q = perm_sessionId p \<Longrightarrow>
          normalizePath H (perm_path q) \<noteq> normalizePath H (perm_path p)"
      by (rule pending_other_path [OF inv d Some m])
    with qq show ?thesis by (auto simp: paths_of_upd)
  qed
  show ?thesis
    unfolding gate_inv_def st k using disj pend by auto
qed

lemma gate_inv_validate:
  assumes inv: "gate_inv H s" and n: "vp_sessionId ps \<noteq> []"
  shows "gate_inv H (snd (validateOperation H now rnd ps s))"
proof -
  let ?s' = "snd (validateOperation H now rnd ps s)"
  note sets = validateOperation_sets [of H now rnd ps s]
  from validateOperation_pending [of H now rnd ps s] show ?thesis
  proof
    assume "sb_pendingPermissions ?s' = sb_pendingPermissions s"
    with inv sets show ?thesis by (simp add: gate_inv_def)
  next
    assume "\<exists>p. sb_pendingPermissions ?s' = AList.update (perm_id p) p (sb_pendingPermissions s) \<and>
        perm_sessionId p = vp_sessionId ps \<and> perm_path p = vp_path ps \<and>
        \<not> isDenied H s (vp_sessionId ps) (vp_path ps) \<and>
        \<not> isApproved H s (vp_sessionId ps) (vp_path ps)"
    then obtain p where p: "sb_pendingPermissions ?s' = AList.update (perm_id p) p (sb_pendingPermissions s)"
      "perm_sessionId p = vp_sessionId ps" "perm_path p = vp_path ps"
      "\<not> isDenied H s (vp_sessionId ps) (vp_path ps)"
      "\<not> isApproved H s (vp_sessionId ps) (vp_path ps)" by blast
    have new: "perm_sessionId p \<noteq> []"
      "normalizePath H (perm_path p) \<notin> set (paths_of (sb_approvedPaths s) (perm_sessionId p))"
      "normalizePath H (perm_path p) \<notin> set (paths_of (sb_deniedPaths s) (perm_sessionId p))"
      using p n not_isDenied_notin [OF p(4)] not_isApproved_notin [OF p(5)] by simp_all
    have "x = (perm_id p, p) \<or> x \<in> set (sb_pendingPermissions s)"
      if "x \<in> set (sb_pendingPermissions ?s')" for x
      using that set_update_subset [of "perm_id p" p "sb_pendingPermissions s"] p(1) by auto
    with inv new show ?thesis
      unfolding gate_inv_def sets by (intro conjI ballI) (simp, fastforce)
  qed
qed

lemma gate_step_inv:
  "gate_inv H s \<Longrightarrow> distinct (pending_keys H s) \<Longrightarrow> names_session c \<Longrightarrow>
   gate_inv H (gate_step H s c)"
  by (cases c) (simp_all add: gate_inv_validate gate_inv_approve gate_inv_deny)

lemma gate_run_inv:
  "gate_inv H s \<Longrightarrow> distinct (pending_keys H s) \<Longrightarrow> one_pending_per_path H s calls \<Longrightarrow>
   gate_inv H (gate_run H s calls)"
  unfolding gate_run_def
proof (induction calls arbitrary: s)
  case Nil
  then show ?case by simp
next
  case (Cons c cs)
  from Cons.prems have "gate_inv H (gate_step H s c)"
    by (simp add: gate_step_inv)
  with Cons.IH [of "gate_step H s c"] Cons.prems show ?case by simp
qed

text \<open>
  C5, as stated, fails: session \<open>s1\<close> asks twice for the same file while the first
  request is still pending, the first request is approved and the second denied, and the
  normalized path is then in the approved set and in the denied set of \<open>s1\<close>.
\<close>

theorem approved_and_denied_overlap:
  "sb_approvedPaths (gate_run posix_host new_Sandbox approve_then_deny) ''s1'' =
     Some [''/home/u/documents/x.txt''] \<and>
   sb_deniedPaths (gate_run posix_host new_Sandbox approve_then_deny) ''s1'' =
     Some [''/home/u/documents/x.txt'']"
  by code_simp

text \<open>
  C5, amended: starting from a sandbox with nothing pending, approved or denied, after
  any sequence of \<open>validateOperation\<close>, \<open>approvePermission\<close> and \<open>denyPermission\<close> calls in
  which the session ids are non-empty and no two permissions for the same session and
  normalized path are pending at the same time, no path is in both the approved and the
  denied set of a session.
\<close>

theorem approved_denied_disjoint:
  assumes "one_pending_per_path H (new_Sandbox\<lparr> sb_config := cfg \<rparr>) calls"
  shows "set (paths_of (sb_approvedPaths (gate_run H (new_Sandbox\<lparr> sb_config := cfg \<rparr>) calls)) sessionId) \<inter>
         set (paths_of (sb_deniedPaths (gate_run H (new_Sandbox\<lparr> sb_config := cfg \<rparr>) calls)) sessionId) = {}"
proof -
  let ?s = "new_Sandbox\<lparr> sb_config := cfg \<rparr>"
  have "gate_inv H ?s" by (simp add: gate_inv_def new_Sandbox_def paths_of_def)
  moreover have "distinct (pending_keys H ?s)" by (simp add: pending_keys_def new_Sandbox_def)
  ultimately have "gate_inv H (gate_run H ?s calls)" using assms by (rule gate_run_inv)
  then show ?thesis by (simp add: gate_inv_def)
qed

theorem approved_denied_disjoint_witness:
  "one_pending_per_path posix_host (new_Sandbox\<lparr> sb_config := sb_config new_Sandbox \<rparr>)
     approve_one_deny_other \<and>
   sb_approvedPaths (gate_run posix_host (new_Sandbox\<lparr> sb_config := sb_config new_Sandbox \<rparr>)
     approve_one_deny_other) ''s1'' = Some [''/home/u/documents/x.txt''] \<and>
   sb_deniedPaths (gate_run posix_host (new_Sandbox\<lparr> sb_config := sb_config new_Sandbox \<rparr>)
     approve_one_deny_other) ''s1'' = Some [''/home/u/desktop''] \<and>
   set (paths_of (sb_approvedPaths (gate_run posix_host
          (new_Sandbox\<lparr> sb_config := sb_config new_Sandbox \<rparr>) approve_one_deny_other)) ''s1'') \<inter>
   set (paths_of (sb_deniedPaths (gate_run posix_host
          (new_Sandbox\<lparr> sb_config := sb_config new_Sandbox \<rparr>) approve_one_deny_other)) ''s1'') = {}"
proof -
  have h: "one_pending_per_path posix_host (new_Sandbox\<lparr> sb_config := sb_config new_Sandbox \<rparr>)
     approve_one_deny_other"
    by code_simp
  have a: "sb_approvedPaths (gate_run posix_host (new_Sandbox\<lparr> sb_config := sb_config new_Sandbox \<rparr>)
     approve_one_deny_other) ''s1'' = Some [''/home/u/documents/x.txt'']"
    by code_simp
  have d: "sb_deniedPaths (gate_run posix_host (new_Sandbox\<lparr> sb_config := sb_config new_Sandbox \<rparr>)
     approve_one_deny_other) ''s1'' = Some [''/home/u/desktop'']"
    by code_simp
  show ?thesis
    using h a d approved_denied_disjoint [OF h, of "''s1''"] by simp
qed

lemma denied_step_mono:
  assumes "d \<in> set (paths_of (sb_deniedPaths s) sid)"
  shows "d \<in> set (paths_of (sb_deniedPaths (gate_step H s c)) sid)"
proof (cases c)
  case (Validate now rnd ps)
  with assms show ?thesis by (simp add: validateOperation_sets)
next
  case (Approve now i)
  with assms show ?thesis
    by (cases "map_of (sb_pendingPermissions s) i")
       (simp_all add: resolve_absent approvePermission_state)
next
  case (Deny now i)
  with assms show ?thesis
    by (cases "map_of (sb_pendingPermissions s) i")
       (auto simp: resolve_absent denyPermission_state paths_of_upd)
qed

lemma denied_run_mono:
  "d \<in> set (paths_of (sb_deniedPaths s) sid) \<Longrightarrow>
   d \<in> set (paths_of (sb_deniedPaths (gate_run H s calls)) sid)"
  unfolding gate_run_def
  by (induction calls arbitrary: s) (simp_all add: denied_step_mono)

lemma denied_not_allowed:
  assumes "d \<in> set (paths_of (sb_deniedPaths s) (vp_sessionId ps))"
    and "startsWith (normalizePath H (vp_path ps)) d"
  shows "\<not> allowed (fst (validateOperation H now rnd ps s))"
proof -
  obtain ds where ds: "sb_deniedPaths s (vp_sessionId ps) = Some ds" "d \<in> set ds"
    using assms(1) by (cases "sb_deniedPaths s (vp_sessionId ps)") (simp_all add: paths_of_def)
  have "isDenied H s (vp_sessionId ps) (vp_path ps)"
    using ds assms(2) by (auto simp: isDenied_def list_ex_iff)
  then show ?thesis
    by (simp add: validateOperation_def Let_def)
qed

text \<open>
  C6: when a path is in the denied set of a session, \<open>validateOperation\<close> does not return
  \<open>allowed\<close> for any path of that session whose normalized form starts with it, neither at
  once nor after any later calls to the gate, approvals of other paths among them: the
  denied set only grows, and it is consulted before the approved set.
\<close>

theorem denied_path_never_allowed:
  assumes "deniedPath \<in> set (paths_of (sb_deniedPaths s) sessionId)"
    and "startsWith (normalizePath H targetPath) deniedPath"
  shows "\<not> allowed (fst (validateOperation H now rnd
            \<lparr> vp_sessionId = sessionId, vp_operation = opn, vp_path = targetPath,
              vp_reason = reason \<rparr> (gate_run H s later_calls)))"
  using denied_run_mono [OF assms(1), of H later_calls] assms(2)
  by (intro denied_not_allowed [where d = deniedPath]) simp_all

theorem denied_path_never_allowed_witness:
  "''/home/u/desktop'' \<in> set (paths_of (sb_deniedPaths desktop_denied) ''s1'') \<and>
   startsWith (normalizePath posix_host ''/home/u/Desktop/notes/a.txt'') ''/home/u/desktop'' \<and>
   sb_approvedPaths (gate_run posix_host desktop_denied approve_elsewhere) ''s1'' =
     Some [''/home/u/documents/x.txt''] \<and>
   \<not> allowed (fst (validateOperation posix_host 5 ''cccccc''
          \<lparr> vp_sessionId = ''s1'', vp_operation = OpRead,
            vp_path = ''/home/u/Desktop/notes/a.txt'', vp_reason = None \<rparr>
          (gate_run posix_host desktop_denied approve_elsewhere)))"
proof -
  have d: "''/home/u/desktop'' \<in> set (paths_of (sb_deniedPaths desktop_denied) ''s1'')"
    by code_simp
  have p: "startsWith (normalizePath posix_host ''/home/u/Desktop/notes/a.txt'') ''/home/u/desktop''"
    by code_simp
  have a: "sb_approvedPaths (gate_run posix_host desktop_denied approve_elsewhere) ''s1'' =
     Some [''/home/u/documents/x.txt'']"
    by code_simp
  show ?thesis
    using d p a denied_path_never_allowed [OF d p, of 5 "''cccccc''" OpRead None approve_elsewhere]
    by simp
qed

section \<open>Properties of the tool executor\<close>

lemma map_of_delete_same [simp]: "map_of (AList.delete k al) k = None"
  by (simp add: AList.delete_conv')















lemma requestPathPermission_pending:
  "map_of (tm_pendingPermissions (snd (requestPathPermission tk p opn reason tm)))
     (new_permission_id tk) =
   Some \<lparr> pp_path = p, pp_operation = opn, pp_reason = reason,
          pp_sessionId = tm_currentSessionId tm, pp_requestedAt = iso_now tk \<rparr>"
  by (simp add: requestPathPermission_def Let_def AList.update_conv')

lemma requestPathPermission_keeps:
  "tm_approvedPaths (snd (requestPathPermission tk p opn reason tm)) = tm_approvedPaths tm"
  "tm_currentSessionId (snd (requestPathPermission tk p opn reason tm)) = tm_currentSessionId tm"
  "tm_fs (snd (requestPathPermission tk p opn reason tm)) = tm_fs tm"
  "fst (requestPathPermission tk p opn reason tm) =
     requires_permission (new_permission_id tk) p opn reason"
  by (simp_all add: requestPathPermission_def Let_def)

lemma read_sensitive:
  assumes "isSensitivePath TH f" and "\<not> isPathApproved TH tm (tm_currentSessionId tm) f"
  shows "executeTool_local TH tk (Read f off lim) tm =
     requestPathPermission tk f ''read'' ''Reading files from this location'' tm"
  using assms by (simp add: executeTool_local_def executeRead_def Let_def split: prod.splits)

lemma isPathApproved_cong:
  "tm_approvedPaths tm' = tm_approvedPaths tm \<Longrightarrow>
   isPathApproved TH tm' sid f = isPathApproved TH tm sid f"
  by (simp add: isPathApproved_def)

lemma tool_deny_pending:
  assumes "map_of (tm_pendingPermissions tm) i = Some perm"
  shows "tool_denyPermission i tm =
     (JObj [(''denied'', JBool True), (''path'', JStr (pp_path perm))],
      tm\<lparr> tm_pendingPermissions := AList.delete i (tm_pendingPermissions tm) \<rparr>)"
  using assms by (simp add: tool_denyPermission_def)

text \<open>
  C10: a session reads a sensitive path that is not approved and is asked for
  permission; the request is denied, which removes the pending entry and leaves the
  approved paths and the file system as they were; the same session reads the same path
  again and gets \<open>requires_permission\<close> again, with the id this call generates, and
  that id is pending afterwards. (That the new id differs from the denied one rests on
  the clock and the random suffix of the second call.)
\<close>

theorem denied_permission_is_asked_again:
  assumes "isSensitivePath TH file_path"
    and "\<not> isPathApproved TH tm (tm_currentSessionId tm) file_path"
  shows "let first = executeTool_local TH tk1 (Read file_path offset limit) tm;
             denied = tool_denyPermission (new_permission_id tk1) (snd first);
             again = executeTool_local TH tk2 (Read file_path offset' limit') (snd denied)
         in fst first = requires_permission (new_permission_id tk1) file_path ''read''
                          ''Reading files from this location'' \<and>
            fst denied = JObj [(''denied'', JBool True), (''path'', JStr file_path)] \<and>
            map_of (tm_pendingPermissions (snd denied)) (new_permission_id tk1) = None \<and>
            tm_approvedPaths (snd denied) = tm_approvedPaths tm \<and>
            tm_fs (snd denied) = tm_fs tm \<and>
            fst again = requires_permission (new_permission_id tk2) file_path ''read''
                          ''Reading files from this location'' \<and>
            map_of (tm_pendingPermissions (snd again)) (new_permission_id tk2) =
              Some \<lparr> pp_path = file_path, pp_operation = ''read'',
                     pp_reason = ''Reading files from this location'',
                     pp_sessionId = tm_currentSessionId tm, pp_requestedAt = iso_now tk2 \<rparr>"
proof -
  let ?req = "\<lambda>tk tm. requestPathPermission tk file_path ''read''
      ''Reading files from this location'' tm"
  let ?tm1 = "snd (?req tk1 tm)"
  have first: "executeTool_local TH tk1 (Read file_path offset limit) tm = ?req tk1 tm"
    using assms by (rule read_sensitive)
  have p1: "map_of (tm_pendingPermissions ?tm1) (new_permission_id tk1) =
      Some \<lparr> pp_path = file_path, pp_operation = ''read'',
             pp_reason = ''Reading files from this location'',
             pp_sessionId = tm_currentSessionId tm, pp_requestedAt = iso_now tk1 \<rparr>"
    by (rule requestPathPermission_pending)
  let ?tm2 = "?tm1\<lparr> tm_pendingPermissions :=
      AList.delete (new_permission_id tk1) (tm_pendingPermissions ?tm1) \<rparr>"
  have denied: "tool_denyPermission (new_permission_id tk1) ?tm1 =
      (JObj [(''denied'', JBool True), (''path'', JStr file_path)], ?tm2)"
    using tool_deny_pending [OF p1] by simp
  have k: "tm_approvedPaths ?tm2 = tm_approvedPaths tm" "tm_fs ?tm2 = tm_fs tm"
    "tm_currentSessionId ?tm2 = tm_currentSessionId tm"
    by (simp_all add: requestPathPermission_keeps)
  have na: "\<not> isPathApproved TH ?tm2 (tm_currentSessionId ?tm2) file_path"
    using assms(2) k by (simp add: isPathApproved_cong [OF k(1)])
  have again: "executeTool_local TH tk2 (Read file_path offset' limit') ?tm2 = ?req tk2 ?tm2"
    using assms(1) na by (rule read_sensitive)
  have p2: "map_of (tm_pendingPermissions (snd (?req tk2 ?tm2))) (new_permission_id tk2) =
      Some \<lparr> pp_path = file_path, pp_operation = ''read'',
             pp_reason = ''Reading files from this location'',
             pp_sessionId = tm_currentSessionId tm, pp_requestedAt = iso_now tk2 \<rparr>"
    using requestPathPermission_pending [of tk2 file_path "''read''"
        "''Reading files from this location''" ?tm2] k(3) by simp
  show ?thesis
    unfolding Let_def first denied again snd_conv fst_conv
    using p2 k by (simp add: requestPathPermission_keeps)
qed

theorem denied_permission_is_asked_again_witness:
  "isSensitivePath posix_tool_host ''/home/u/Documents/x.txt'' \<and>
   \<not> isPathApproved posix_tool_host tmp_module (tm_currentSessionId tmp_module)
       ''/home/u/Documents/x.txt'' \<and>
   fst (executeTool_local posix_tool_host tick2 (Read ''/home/u/Documents/x.txt'' None None)
     (snd (tool_denyPermission (new_permission_id tick1)
        (snd (executeTool_local posix_tool_host tick1
                (Read ''/home/u/Documents/x.txt'' None None) tmp_module))))) =
     requires_permission (new_permission_id tick2) ''/home/u/Documents/x.txt'' ''read''
       ''Reading files from this location'' \<and>
   new_permission_id tick2 = ''perm_2_bbbbbb''"
proof -
  have s: "isSensitivePath posix_tool_host ''/home/u/Documents/x.txt''" by code_simp
  have a: "\<not> isPathApproved posix_tool_host tmp_module (tm_currentSessionId tmp_module)
       ''/home/u/Documents/x.txt''" by code_simp
  have n: "new_permission_id tick2 = ''perm_2_bbbbbb''" by code_simp
  show ?thesis
    using s a n
      denied_permission_is_asked_again [OF s a, of tick1 None None tick2 None None]
    by (simp add: Let_def)
qed

section \<open>Resolving a permission twice\<close>

lemma distinct_set_add: "distinct xs \<Longrightarrow> distinct (set_add x xs)"
  by (simp add: set_add_def)

lemma sandbox_approve_twice:
  assumes "map_of (sb_pendingPermissions s) i = Some p"
  shows "fst (approvePermission H now i s) = Some (p\<lparr> perm_status := StatusApproved \<rparr>) \<and>
     normalizePath H (perm_path p) \<in>
       set (paths_of (sb_approvedPaths (snd (approvePermission H now i s))) (session_key p)) \<and>
     map_of (sb_pendingPermissions (snd (approvePermission H now i s))) i = None \<and>
     approvePermission H now' i (snd (approvePermission H now i s)) =
       (None, snd (approvePermission H now i s)) \<and>
     denyPermission H now' i (snd (approvePermission H now i s)) =
       (None, snd (approvePermission H now i s)) \<and>
     (distinct (paths_of (sb_approvedPaths s) sid) \<longrightarrow>
        distinct (paths_of (sb_approvedPaths (snd (approvePermission H now i s))) sid))"
proof -
  note st = approvePermission_state [OF assms, of H now]
  have n: "map_of (sb_pendingPermissions (snd (approvePermission H now i s))) i = None"
    by (simp add: st)
  show ?thesis
    using n resolve_absent [OF n, of H now']
    by (simp add: st paths_of_upd distinct_set_add)
qed

lemma sandbox_deny_twice:
  assumes "map_of (sb_pendingPermissions s) i = Some p"
  shows "fst (denyPermission H now i s) = Some (p\<lparr> perm_status := StatusDenied \<rparr>) \<and>
     normalizePath H (perm_path p) \<in>
       set (paths_of (sb_deniedPaths (snd (denyPermission H now i s))) (session_key p)) \<and>
     map_of (sb_pendingPermissions (snd (denyPermission H now i s))) i = None \<and>
     denyPermission H now' i (snd (denyPermission H now i s)) =
       (None, snd (denyPermission H now i s)) \<and>
     approvePermission H now' i (snd (denyPermission H now i s)) =
       (None, snd (denyPermission H now i s)) \<and>
     sb_approvedPaths (snd (denyPermission H now i s)) = sb_approvedPaths s \<and>
     (distinct (paths_of (sb_deniedPaths s) sid) \<longrightarrow>
        distinct (paths_of (sb_deniedPaths (snd (denyPermission H now i s))) sid))"
proof -
  note st = denyPermission_state [OF assms, of H now]
  have n: "map_of (sb_pendingPermissions (snd (denyPermission H now i s))) i = None"
    by (simp add: st)
  show ?thesis
    using n resolve_absent [OF n, of H now']
    by (simp add: st paths_of_upd distinct_set_add)
qed

lemma tool_resolve_absent:
  assumes "map_of (tm_pendingPermissions tm) i = None"
  shows "confirmPermission TH i tm = (not_found_or_expired, tm)"
    and "tool_denyPermission i tm = (not_found, tm)"
  using assms
  by (simp_all add: confirmPermission_def tool_denyPermission_def not_found_def
        not_found_or_expired_def)

lemma tool_confirm_twice:
  assumes "map_of (tm_pendingPermissions tm) i = Some perm"
  shows "fst (confirmPermission TH i tm) =
       JObj [(''approved'', JBool True), (''path'', JStr (pp_path perm))] \<and>
     path_normalize (paths TH) (pp_path perm) \<in>
       set (paths_of (tm_approvedPaths (snd (confirmPermission TH i tm))) (pp_sessionId perm)) \<and>
     confirmPermission TH i (snd (confirmPermission TH i tm)) =
       (not_found_or_expired, snd (confirmPermission TH i tm)) \<and>
     tool_denyPermission i (snd (confirmPermission TH i tm)) =
       (not_found, snd (confirmPermission TH i tm)) \<and>
     (distinct (paths_of (tm_approvedPaths tm) sid) \<longrightarrow>
        distinct (paths_of (tm_approvedPaths (snd (confirmPermission TH i tm))) sid))"
proof -
  have st: "confirmPermission TH i tm =
      (JObj [(''approved'', JBool True), (''path'', JStr (pp_path perm))],
       tm\<lparr> tm_approvedPaths :=
             (tm_approvedPaths tm)(pp_sessionId perm \<mapsto>
                set_add (path_normalize (paths TH) (pp_path perm))
                  (paths_of (tm_approvedPaths tm) (pp_sessionId perm))),
           tm_pendingPermissions := AList.delete i (tm_pendingPermissions tm) \<rparr>)"
    using assms by (simp add: confirmPermission_def)
  have n: "map_of (tm_pendingPermissions (snd (confirmPermission TH i tm))) i = None"
    by (simp add: st)
  show ?thesis
    using tool_resolve_absent [OF n]
    by (simp add: st paths_of_upd distinct_set_add)
qed

lemma tool_deny_twice:
  assumes "map_of (tm_pendingPermissions tm) i = Some perm"
  shows "fst (tool_denyPermission i tm) =
       JObj [(''denied'', JBool True), (''path'', JStr (pp_path perm))] \<and>
     tool_denyPermission i (snd (tool_denyPermission i tm)) =
       (not_found, snd (tool_denyPermission i tm)) \<and>
     confirmPermission TH i (snd (tool_denyPermission i tm)) =
       (not_found_or_expired, snd (tool_denyPermission i tm)) \<and>
     tm_approvedPaths (snd (tool_denyPermission i tm)) = tm_approvedPaths tm"
proof -
  note st = tool_deny_pending [OF assms]
  have n: "map_of (tm_pendingPermissions (snd (tool_denyPermission i tm))) i = None"
    by (simp add: st)
  show ?thesis
    using tool_resolve_absent [OF n]
    by (simp add: st)
qed

text \<open>
  C9, as stated, fails for the tool module's \<open>denyPermission\<close>: its first call on a
  pending id removes the entry and touches no path set. After session \<open>s1\<close> has been
  asked for permission and the request is denied, the module is back in the state it
  had before the request.
\<close>

theorem tool_deny_records_nothing:
  "map_of (tm_pendingPermissions permission_requested) ''perm_1_aaaaaa'' =
     Some \<lparr> pp_path = ''/home/u/Documents/x.txt'', pp_operation = ''read'',
            pp_reason = ''Reading files from this location'', pp_sessionId = ''s1'',
            pp_requestedAt = ''2026-01-01T00:00:00.001Z'' \<rparr> \<and>
   tool_denyPermission ''perm_1_aaaaaa'' permission_requested =
     (JObj [(''denied'', JBool True), (''path'', JStr ''/home/u/Documents/x.txt'')],
      tmp_module)"
  by (simp add: permission_requested_def requestPathPermission_def tool_denyPermission_def
      new_permission_id_def tick1_def tmp_module_def show_nat.simps digit_char_def Let_def)

text \<open>
  C9, amended: in the \<open>Sandbox\<close>, the first \<open>approvePermission\<close> or \<open>denyPermission\<close> on a
  pending id returns the permission, removes it from the pending map and puts its
  normalized path into the approved or the denied set of its session; in the tool
  module, the first \<open>confirmPermission\<close> does the same for the approved set, while the
  first \<open>denyPermission\<close> only removes the pending entry. In both, a second approve or
  deny on the id returns the not-found answer (\<open>null\<close> from the \<open>Sandbox\<close>, an \<open>error\<close>
  object from the tool module) and leaves the state as it is, and a path set without
  duplicates stays without duplicates.
\<close>

theorem second_resolution_is_noop:
  assumes "map_of (sb_pendingPermissions s) permissionId = Some p"
    and "map_of (tm_pendingPermissions tm) toolPermissionId = Some perm"
  shows
    "(fst (approvePermission H now permissionId s) = Some (p\<lparr> perm_status := StatusApproved \<rparr>) \<and>
      normalizePath H (perm_path p) \<in>
        set (paths_of (sb_approvedPaths (snd (approvePermission H now permissionId s)))
               (session_key p)) \<and>
      map_of (sb_pendingPermissions (snd (approvePermission H now permissionId s)))
        permissionId = None \<and>
      approvePermission H now' permissionId (snd (approvePermission H now permissionId s)) =
        (None, snd (approvePermission H now permissionId s)) \<and>
      denyPermission H now' permissionId (snd (approvePermission H now permissionId s)) =
        (None, snd (approvePermission H now permissionId s)) \<and>
      (distinct (paths_of (sb_approvedPaths s) sid) \<longrightarrow>
         distinct (paths_of (sb_approvedPaths (snd (approvePermission H now permissionId s))) sid))) \<and>
     (fst (denyPermission H now permissionId s) = Some (p\<lparr> perm_status := StatusDenied \<rparr>) \<and>
      normalizePath H (perm_path p) \<in>
        set (paths_of (sb_deniedPaths (snd (denyPermission H now permissionId s)))
               (session_key p)) \<and>
      map_of (sb_pendingPermissions (snd (denyPermission H now permissionId s)))
        permissionId = None \<and>
      denyPermission H now' permissionId (snd (denyPermission H now permissionId s)) =
        (None, snd (denyPermission H now permissionId s)) \<and>
      approvePermission H now' permissionId (snd (denyPermission H now permissionId s)) =
        (None, snd (denyPermission H now permissionId s)) \<and>
      sb_approvedPaths (snd (denyPermission H now permissionId s)) = sb_approvedPaths s \<and>
      (distinct (paths_of (sb_deniedPaths s) sid) \<longrightarrow>
         distinct (paths_of (sb_deniedPaths (snd (denyPermission H now permissionId s))) sid))) \<and>
     (fst (confirmPermission TH toolPermissionId tm) =
        JObj [(''approved'', JBool True), (''path'', JStr (pp_path perm))] \<and>
      path_normalize (paths TH) (pp_path perm) \<in>
        set (paths_of (tm_approvedPaths (snd (confirmPermission TH toolPermissionId tm)))
               (pp_sessionId perm)) \<and>
      confirmPermission TH toolPermissionId (snd (confirmPermission TH toolPermissionId tm)) =
        (not_found_or_expired, snd (confirmPermission TH toolPermissionId tm)) \<and>
      tool_denyPermission toolPermissionId (snd (confirmPermission TH toolPermissionId tm)) =
        (not_found, snd (confirmPermission TH toolPermissionId tm)) \<and>
      (distinct (paths_of (tm_approvedPaths tm) sid) \<longrightarrow>
         distinct (paths_of (tm_approvedPaths (snd (confirmPermission TH toolPermissionId tm)))
                     sid))) \<and>
     (tool_denyPermission toolPermissionId tm =
        (JObj [(''denied'', JBool True), (''path'', JStr (pp_path perm))],
         tm\<lparr> tm_pendingPermissions :=
               AList.delete toolPermissionId (tm_pendingPermissions tm) \<rparr>) \<and>
      tool_denyPermission toolPermissionId (snd (tool_denyPermission toolPermissionId tm)) =
        (not_found, snd (tool_denyPermission toolPermissionId tm)) \<and>
      confirmPermission TH toolPermissionId (snd (tool_denyPermission toolPermissionId tm)) =
        (not_found_or_expired, snd (tool_denyPermission toolPermissionId tm)))"
  using sandbox_approve_twice [OF assms(1), of H now now' sid]
    sandbox_deny_twice [OF assms(1), of H now now' sid]
    tool_confirm_twice [OF assms(2), of TH sid]
    tool_deny_twice [OF assms(2), of TH] tool_deny_pending [OF assms(2)]
  by simp

theorem second_resolution_is_noop_witness:
  "map_of (sb_pendingPermissions doc_pending) ''perm_1_aaaaaa'' \<noteq> None \<and>
   map_of (tm_pendingPermissions permission_requested) ''perm_1_aaaaaa'' \<noteq> None \<and>
   paths_of (sb_approvedPaths (snd (approvePermission posix_host 2 ''perm_1_aaaaaa'' doc_pending)))
     ''s1'' = [''/home/u/documents/x.txt''] \<and>
   approvePermission posix_host 3 ''perm_1_aaaaaa''
       (snd (approvePermission posix_host 2 ''perm_1_aaaaaa'' doc_pending)) =
     (None, snd (approvePermission posix_host 2 ''perm_1_aaaaaa'' doc_pending)) \<and>
   confirmPermission posix_tool_host ''perm_1_aaaaaa''
       (snd (confirmPermission posix_tool_host ''perm_1_aaaaaa'' permission_requested)) =
     (not_found_or_expired,
      snd (confirmPermission posix_tool_host ''perm_1_aaaaaa'' permission_requested))"
proof -
  have "map_of (sb_pendingPermissions doc_pending) ''perm_1_aaaaaa'' \<noteq> None"
    by code_simp
  then obtain p where p: "map_of (sb_pendingPermissions doc_pending) ''perm_1_aaaaaa'' = Some p"
    by blast
  have "map_of (tm_pendingPermissions permission_requested) ''perm_1_aaaaaa'' \<noteq> None"
    by code_simp
  then obtain perm where t:
    "map_of (tm_pendingPermissions permission_requested) ''perm_1_aaaaaa'' = Some perm"
    by blast
  have a: "paths_of (sb_approvedPaths
      (snd (approvePermission posix_host 2 ''perm_1_aaaaaa'' doc_pending))) ''s1'' =
      [''/home/u/documents/x.txt'']"
    by code_simp
  show ?thesis
    using p t a
      second_resolution_is_noop [OF p t, of posix_host 2 3 "''s1''" posix_tool_host]
    by simp
qed

section \<open>Properties of the bridge\<close>

lemma set_alist_delete: "set (AList.delete k al) = {x \<in> set al. fst x \<noteq> k}"
  by (auto simp: AList.delete_eq)

lemma distinct_delete_fst: "distinct (map fst al) \<Longrightarrow> distinct (map fst (AList.delete k al))"
  by (simp add: AList.delete_eq distinct_map_filter)

lemma set_alist_update: "set (AList.update k v al) \<subseteq> insert (k, v) (set al)"
  by (induction al) auto

lemma map_of_in_set: "map_of al k = Some v \<Longrightarrow> (k, v) \<in> set al"
  by (rule map_of_SomeD)

lemma bridge_inv_new: "bridge_inv new_bridge"
  by (simp add: bridge_inv_def new_bridge_def)

lemma bridge_invI:
  assumes "distinct (map fst (settled b))" "distinct (map fst (timers b))"
    "fst ` set (timers b) \<inter> fst ` set (settled b) = {}"
    "fst ` set (timers b) \<union> fst ` set (settled b) = {..<call_count b}"
    "\<And>rid call. (rid, call) \<in> set (pendingRequests b) \<Longrightarrow>
        \<exists>action. (call, rid, action) \<in> set (timers b)"
  shows "bridge_inv b"
  using assms unfolding bridge_inv_def by (auto simp: image_iff) force

lemma bridge_invD:
  assumes "bridge_inv b"
  shows "distinct (map fst (settled b))" "distinct (map fst (timers b))"
    "fst ` set (timers b) \<inter> fst ` set (settled b) = {}"
    "fst ` set (timers b) \<union> fst ` set (settled b) = {..<call_count b}"
    "\<And>rid call. (rid, call) \<in> set (pendingRequests b) \<Longrightarrow>
        \<exists>action. (call, rid, action) \<in> set (timers b)"
  using assms unfolding bridge_inv_def by (auto simp: image_iff subset_iff) force


lemma fresh_call:
  assumes "bridge_inv b"
  shows "call_count b \<notin> fst ` set (timers b)" "call_count b \<notin> fst ` set (settled b)"
proof -
  have "call_count b \<notin> {..<call_count b}" by simp
  then have "call_count b \<notin> fst ` set (timers b) \<union> fst ` set (settled b)"
    using bridge_invD(4) [OF assms] by simp
  then show "call_count b \<notin> fst ` set (timers b)" "call_count b \<notin> fst ` set (settled b)"
    by simp_all
qed

lemma lessThan_Suc_insert: "{..<n + 1} = insert n {..<n::nat}"
  by auto

lemma bridge_inv_reject_new:
  assumes "bridge_inv b"
  shows "bridge_inv (b\<lparr> call_count := call_count b + 1, settled := settled b @ [(call_count b, r)] \<rparr>)"
proof (rule bridge_invI)
  note d = bridge_invD [OF assms] and f = fresh_call [OF assms]
  let ?b = "b\<lparr> call_count := call_count b + 1, settled := settled b @ [(call_count b, r)] \<rparr>"
  show "distinct (map fst (settled ?b))" using d(1) f(2) by simp
  show "distinct (map fst (timers ?b))" using d(2) by simp
  show "fst ` set (timers ?b) \<inter> fst ` set (settled ?b) = {}"
    using d(3) f(1) by auto
  show "fst ` set (timers ?b) \<union> fst ` set (settled ?b) = {..<call_count ?b}"
    using d(4) by (auto simp: lessThan_Suc_insert)
  show "\<exists>action. (call, rid, action) \<in> set (timers ?b)"
    if "(rid, call) \<in> set (pendingRequests ?b)" for rid call
    using d(5) [of rid call] that by simp
qed

lemma bridge_inv_arm:
  assumes "bridge_inv b"
  shows "bridge_inv (b\<lparr> requestIdCounter := n, call_count := call_count b + 1,
            timers := timers b @ [(call_count b, n, action)],
            pendingRequests := AList.update n (call_count b) (pendingRequests b),
            sent := out \<rparr>)"
proof (rule bridge_invI)
  note d = bridge_invD [OF assms] and f = fresh_call [OF assms]
  let ?b = "b\<lparr> requestIdCounter := n, call_count := call_count b + 1,
            timers := timers b @ [(call_count b, n, action)],
            pendingRequests := AList.update n (call_count b) (pendingRequests b),
            sent := out \<rparr>"
  show "distinct (map fst (settled ?b))" using d(1) by simp
  show "distinct (map fst (timers ?b))" using d(2) f(1) by simp
  show "fst ` set (timers ?b) \<inter> fst ` set (settled ?b) = {}"
    using d(3) f(2) by auto
  show "fst ` set (timers ?b) \<union> fst ` set (settled ?b) = {..<call_count ?b}"
    using d(4) by (auto simp: lessThan_Suc_insert)
  show "\<exists>a. (call, rid, a) \<in> set (timers ?b)"
    if "(rid, call) \<in> set (pendingRequests ?b)" for rid call
  proof -
    from that have "(rid, call) = (n, call_count b) \<or> (rid, call) \<in> set (pendingRequests b)"
      using set_alist_update [of n "call_count b" "pendingRequests b"] by auto
    then show ?thesis using d(5) [of rid call] by auto
  qed
qed

lemma bridge_inv_send:
  assumes "bridge_inv b"
  shows "bridge_inv (sendCommand ready action params b)"
proof (cases "browserExtensionSocket b")
  case None
  then show ?thesis using bridge_inv_reject_new [OF assms] by (simp add: sendCommand_def)
next
  case (Some ws)
  then show ?thesis
    using bridge_inv_reject_new [OF assms] bridge_inv_arm [OF assms]
    by (simp add: sendCommand_def Let_def)
qed

lemma bridge_inv_settle:
  assumes "bridge_inv b" and "(call, rid, action) \<in> set (timers b)"
  shows "bridge_inv (b\<lparr> timers := AList.delete call (timers b),
            pendingRequests := AList.delete rid (pendingRequests b),
            settled := settled b @ [(call, r)] \<rparr>)"
proof (rule bridge_invI)
  note d = bridge_invD [OF assms(1)]
  let ?b = "b\<lparr> timers := AList.delete call (timers b),
            pendingRequests := AList.delete rid (pendingRequests b),
            settled := settled b @ [(call, r)] \<rparr>"
  have ct: "call \<in> fst ` set (timers b)" using assms(2) by force
  have ns: "call \<notin> fst ` set (settled b)" using d(3) ct by auto
  show "distinct (map fst (settled ?b))" using d(1) ns by simp
  show "distinct (map fst (timers ?b))" using d(2) by (simp add: distinct_delete_fst)
  show "fst ` set (timers ?b) \<inter> fst ` set (settled ?b) = {}"
    using d(3) by (auto simp: set_alist_delete)
  show "fst ` set (timers ?b) \<union> fst ` set (settled ?b) = {..<call_count ?b}"
  proof -
    have "fst ` set (AList.delete call (timers b)) = fst ` set (timers b) - {call}"
      by (force simp: set_alist_delete)
    then show ?thesis using d(4) ct by auto
  qed
  show "\<exists>a. (c, i, a) \<in> set (timers ?b)"
    if "(i, c) \<in> set (pendingRequests ?b)" for i c
  proof -
    from that have m: "(i, c) \<in> set (pendingRequests b)" "i \<noteq> rid"
      by (auto simp: set_alist_delete)
    then obtain a where a: "(c, i, a) \<in> set (timers b)" using d(5) by blast
    have "c \<noteq> call"
    proof
      assume "c = call"
      with a assms(2) d(2) have "(i, a) = (rid, action)"
        by (metis eq_key_imp_eq_value)
      with m(2) show False by simp
    qed
    with a show ?thesis by (auto simp: set_alist_delete)
  qed
qed

lemma bridge_inv_timeout:
  assumes "bridge_inv b"
  shows "bridge_inv (timeout_fires call b)"
proof (cases "map_of (timers b) call")
  case None
  with assms show ?thesis by (simp add: timeout_fires_def)
next
  case (Some ia)
  obtain rid action where ia: "ia = (rid, action)" by (cases ia)
  have "(call, rid, action) \<in> set (timers b)" using Some ia by (auto dest: map_of_SomeD)
  from bridge_inv_settle [OF assms this] show ?thesis
    using Some ia by (simp add: timeout_fires_def)
qed

lemma bridge_inv_settle_pending:
  assumes "bridge_inv b"
  shows "bridge_inv (settle_pending message_id r b)"
proof (cases message_id)
  case None
  with assms show ?thesis by (simp add: settle_pending_def)
next
  case (Some rid)
  show ?thesis
  proof (cases "map_of (pendingRequests b) rid")
    case None
    with assms Some show ?thesis by (simp add: settle_pending_def)
  next
    case (Some call)
    then have "(rid, call) \<in> set (pendingRequests b)" by (rule map_of_SomeD)
    then obtain action where "(call, rid, action) \<in> set (timers b)"
      using bridge_invD(5) [OF assms] by blast
    from bridge_inv_settle [OF assms this] show ?thesis
      using Some \<open>message_id = Some rid\<close> by (simp add: settle_pending_def)
  qed
qed

lemma bridge_inv_step: "bridge_inv b \<Longrightarrow> bridge_inv (bridge_step b e)"
proof (cases e)
  case (Message ws m)
  assume "bridge_inv b"
  then show ?thesis using Message
    by (cases m) (simp_all add: bridge_inv_settle_pending, simp add: bridge_inv_def)
qed (simp_all add: bridge_inv_send bridge_inv_timeout on_connection_def on_close_def,
     simp_all add: bridge_inv_def)

lemma bridge_inv_foldl: "bridge_inv b \<Longrightarrow> bridge_inv (foldl bridge_step b evs)"
  by (induction evs arbitrary: b) (simp_all add: bridge_inv_step)

lemma bridge_inv_run: "bridge_inv (bridge_run evs)"
  unfolding bridge_run_def by (rule bridge_inv_foldl) (rule bridge_inv_new)


lemma timeout_fires_armed:
  assumes "map_of (timers b) call = Some (rid, action)"
  shows "settled (timeout_fires call b) =
       settled b @ [(call, Rejected (''Browser command '' @ action @ '' timed out''))]"
    and "map_of (timers (timeout_fires call b)) call = None"
    and "map_of (pendingRequests (timeout_fires call b)) rid = None"
    and "timeout_fires call (timeout_fires call b) = timeout_fires call b"
  using assms by (simp_all add: timeout_fires_def AList.delete_conv')

lemma settle_pending_found:
  assumes "map_of (pendingRequests b) rid = Some call"
  shows "settled (settle_pending (Some rid) r b) = settled b @ [(call, r)]"
    and "map_of (timers (settle_pending (Some rid) r b)) call = None"
    and "map_of (pendingRequests (settle_pending (Some rid) r b)) rid = None"
    and "timeout_fires call (settle_pending (Some rid) r b) = settle_pending (Some rid) r b"
    and "settle_pending (Some rid) r' (settle_pending (Some rid) r b) =
           settle_pending (Some rid) r b"
  using assms by (simp_all add: settle_pending_def timeout_fires_def AList.delete_conv')

text \<open>
  C8: after any sequence of connections, \<open>sendCommand\<close> calls, incoming messages, timer
  callbacks and closes, no call of \<open>sendCommand\<close> has had \<open>resolve\<close> or \<open>reject\<close> called
  twice for its promise, and every call made so far either has its outcome or still has
  its timer armed, never both. When the timer of a call fires, its promise is rejected
  with the timeout error, the timer is gone and the entry of its id is removed, so that
  the timer firing again changes nothing. When a result or error message arrives for an
  id that is pending, the promise of the entry is resolved or rejected, its timer is
  cleared and the entry removed, so that the timer firing afterwards changes nothing.
\<close>

theorem bridge_settles_once:
  "distinct (map fst (settled (bridge_run evs))) \<and>
   distinct (map fst (timers (bridge_run evs))) \<and>
   set (map fst (timers (bridge_run evs))) \<inter> set (map fst (settled (bridge_run evs))) = {} \<and>
   set (map fst (timers (bridge_run evs))) \<union> set (map fst (settled (bridge_run evs))) =
     {..<call_count (bridge_run evs)} \<and>
   (map_of (timers (bridge_run evs)) call = Some (rid, action) \<longrightarrow>
      settled (bridge_step (bridge_run evs) (TimeoutFires call)) =
        settled (bridge_run evs) @
          [(call, Rejected (''Browser command '' @ action @ '' timed out''))] \<and>
      map_of (timers (bridge_step (bridge_run evs) (TimeoutFires call))) call = None \<and>
      map_of (pendingRequests (bridge_step (bridge_run evs) (TimeoutFires call))) rid = None \<and>
      bridge_step (bridge_step (bridge_run evs) (TimeoutFires call)) (TimeoutFires call) =
        bridge_step (bridge_run evs) (TimeoutFires call)) \<and>
   (map_of (pendingRequests (bridge_run evs)) rid' = Some call' \<longrightarrow>
      settled (bridge_step (bridge_run evs) (Message ws (ResultMessage (Some rid') message))) =
        settled (bridge_run evs) @ [(call', Resolved message)] \<and>
      settled (bridge_step (bridge_run evs) (Message ws (ErrorMessage (Some rid') err))) =
        settled (bridge_run evs) @ [(call', Rejected err)] \<and>
      map_of (timers (bridge_step (bridge_run evs)
        (Message ws (ResultMessage (Some rid') message)))) call' = None \<and>
      map_of (timers (bridge_step (bridge_run evs)
        (Message ws (ErrorMessage (Some rid') err)))) call' = None \<and>
      map_of (pendingRequests (bridge_step (bridge_run evs)
        (Message ws (ResultMessage (Some rid') message)))) rid' = None \<and>
      map_of (pendingRequests (bridge_step (bridge_run evs)
        (Message ws (ErrorMessage (Some rid') err)))) rid' = None \<and>
      bridge_step (bridge_step (bridge_run evs) (Message ws (ResultMessage (Some rid') message)))
          (TimeoutFires call') =
        bridge_step (bridge_run evs) (Message ws (ResultMessage (Some rid') message)) \<and>
      bridge_step (bridge_step (bridge_run evs) (Message ws (ErrorMessage (Some rid') err)))
          (TimeoutFires call') =
        bridge_step (bridge_run evs) (Message ws (ErrorMessage (Some rid') err)))"
proof -
  have i: "bridge_inv (bridge_run evs)" by (rule bridge_inv_run)
  have inv: "distinct (map fst (settled (bridge_run evs)))"
    "distinct (map fst (timers (bridge_run evs)))"
    "set (map fst (timers (bridge_run evs))) \<inter> set (map fst (settled (bridge_run evs))) = {}"
    "set (map fst (timers (bridge_run evs))) \<union> set (map fst (settled (bridge_run evs))) =
       {..<call_count (bridge_run evs)}"
    using i unfolding bridge_inv_def by blast+
  show ?thesis
    using inv timeout_fires_armed [of "bridge_run evs" call rid action]
      settle_pending_found [of "bridge_run evs" rid' call' "Resolved message"]
      settle_pending_found [of "bridge_run evs" rid' call' "Rejected err"]
    by simp
qed

theorem bridge_settles_once_witness:
  "map_of (timers (bridge_run two_sent)) 1 = Some (2, ''read'') \<and>
   map_of (pendingRequests (bridge_run two_sent)) 1 = Some 0 \<and>
   settled (bridge_step (bridge_run two_sent) (TimeoutFires 1)) =
     [(1, Rejected ''Browser command read timed out'')] \<and>
   map_of (pendingRequests (bridge_step (bridge_run two_sent) (TimeoutFires 1))) 2 = None \<and>
   settled (bridge_step (bridge_run two_sent)
      (Message 0 (ResultMessage (Some 1) (JObj [(''type'', JStr ''result'')])))) =
     [(0, Resolved (JObj [(''type'', JStr ''result'')]))] \<and>
   bridge_step (bridge_step (bridge_run two_sent)
      (Message 0 (ResultMessage (Some 1) (JObj [(''type'', JStr ''result'')])))) (TimeoutFires 0) =
     bridge_step (bridge_run two_sent)
      (Message 0 (ResultMessage (Some 1) (JObj [(''type'', JStr ''result'')])))"
proof -
  note run = bridge_run_def two_sent_def new_bridge_def on_connection_def sendCommand_def
    js_increment_def Let_def
  have t: "map_of (timers (bridge_run two_sent)) 1 = Some (2, ''read'')" by (simp add: run)
  have p: "map_of (pendingRequests (bridge_run two_sent)) 1 = Some 0" by (simp add: run)
  have s: "settled (bridge_run two_sent) = []" by (simp add: run)
  show ?thesis
    using t p s
      bridge_settles_once [of two_sent 1 2 "''read''" 1 0 0
        "JObj [(''type'', JStr ''result'')]" "[]"]
    by simp
qed

end
